theory Spec2Isabelle
  imports Main "HOL-Library.Word"
begin

section \<open>The hare broker (src/hare/broker.go)\<close>

text \<open>
  A shallow embedding of the message broker of package \<^verbatim>\<open>hare\<close>: its state, the body of
  one pass through the dispatcher's \<^verbatim>\<open>select\<close>, \<^verbatim>\<open>Register\<close>, \<^verbatim>\<open>Unregister\<close>,
  \<^verbatim>\<open>Start\<close> and \<^verbatim>\<open>Close\<close>.

  \<^item> \<^verbatim>\<open>InstanceId\<close> is declared outside broker.go; the broker adds 1 to it and compares it,
    so it is one of Go's unsigned integer types. Its width is the type parameter \<open>'w\<close>:
    an id is a \<open>'w word\<close>, and \<open>+\<close> wraps around as Go's does. The records take the type
    of ids as their parameter \<open>'i\<close>; every operation uses them at \<open>'w word\<close>.
  \<^item> A Go channel is a reference. The channels made by \<^verbatim>\<open>Register\<close> live in a store
    \<open>chans\<close> from addresses to queue contents (head of the list = next message received);
    \<open>outbox\<close> maps an id to an address, \<open>nchans\<close> is the next unused address.
  \<^item> A send on a full channel blocks. A function that can block returns an option, and
    \<open>None\<close> says that the call does not return in the state it was made in.
  \<^item> \<^verbatim>\<open>proto.Unmarshal\<close> and the validator are external: the decoder is the parameter
    \<open>unm\<close>, the validator the field \<open>eValidator\<close>, both functions of their argument alone.
    The field \<^verbatim>\<open>InstanceId\<close> of the decoded message has the type of ids, so that the
    conversion of line 109 changes nothing.
  \<^item> The system is modelled at two grains. In a schedule of \<open>step\<close>s every pass of the
    dispatcher's loop and every call of \<^verbatim>\<open>Register\<close> and \<^verbatim>\<open>Unregister\<close> is atomic. A pass
    holds the lock in three separate sections (lines 105-107, 131-133, 138-143); in a
    schedule of moves (\<open>do_moves\<close>) each section is a move of its own, other goroutines run between
    them, and a \<^verbatim>\<open>Register\<close> that blocks in its sweep keeps the write lock for good.
    Every schedule of steps is a schedule of moves.
\<close>

subsection \<open>Data\<close>

definition InboxCapacity :: nat where
  "InboxCapacity = 100"

type_synonym bytes = "8 word list"

text \<open>\<^verbatim>\<open>pb.HareMessage\<close>: the broker reads the pointer \<^verbatim>\<open>Message\<close> (nil is \<open>None\<close>) and, through
  it, \<^verbatim>\<open>InstanceId\<close>; everything else is the opaque \<open>'p\<close>.\<close>

record ('i, 'p) InnerMessage =
  InstanceId :: 'i
  Fields :: 'p

record ('i, 'p) HareMessage =
  Message :: "('i, 'p) InnerMessage option"
  Rest :: 'p

text \<open>\<^verbatim>\<open>service.GossipMessage\<close>: the envelope of the transport. \<^verbatim>\<open>Bytes()\<close> is its
  content; a call of its \<^verbatim>\<open>ReportValidation(ProtoName, v)\<close> is the event
  \<open>ReportValidation m v\<close>, a call of the validator the event \<open>Validate h\<close>.\<close>

datatype GossipMessage = GossipMessage (Bytes: bytes)

datatype ('i, 'p) event =
    ReportValidation GossipMessage bool
  | Validate "('i, 'p) HareMessage"

fun is_report :: "('i, 'p) event \<Rightarrow> bool" where
  "is_report (ReportValidation m v) = True"
| "is_report (Validate h) = False"

text \<open>The struct \<^verbatim>\<open>Broker\<close>, the content of the channels it refers to, and whether the
  dispatcher goroutine is alive.\<close>

record ('i, 'p) Broker =
  closed :: bool
  eValidator :: "('i, 'p) HareMessage \<Rightarrow> bool"
  inbox :: "GossipMessage option list"
  outbox :: "'i \<rightharpoonup> nat"
  pending :: "'i \<rightharpoonup> ('i, 'p) HareMessage list"
  maxReg :: 'i
  isStarted :: bool
  chans :: "nat \<Rightarrow> ('i, 'p) HareMessage list"
  nchans :: nat
  running :: bool

definition NewBroker :: "(('w::len word, 'p) HareMessage \<Rightarrow> bool) \<Rightarrow> ('w word, 'p) Broker" where
  "NewBroker v =
     \<lparr> closed = False, eValidator = v, inbox = [], outbox = Map.empty, pending = Map.empty,
       maxReg = 0, isStarted = False, chans = (\<lambda>c. []), nchans = 0, running = False \<rparr>"

subsection \<open>Channel operations\<close>

text \<open>\<^verbatim>\<open>c <- m\<close> on a channel of capacity \<open>InboxCapacity\<close>: \<open>None\<close> when the channel is
  full (the sender blocks).\<close>

definition send :: "('w word, 'p) Broker \<Rightarrow> nat \<Rightarrow> ('w word, 'p) HareMessage \<Rightarrow> ('w word, 'p) Broker option" where
  "send s c m =
     (if length (chans s c) < InboxCapacity
      then Some (s\<lparr>chans := (chans s)(c := chans s c @ [m])\<rparr>)
      else None)"

text \<open>\<^verbatim>\<open><-c\<close> by the consumer that holds the channel: \<open>None\<close> when it is empty.\<close>

definition receive :: "('w word, 'p) Broker \<Rightarrow> nat \<Rightarrow> (('w word, 'p) HareMessage \<times> ('w word, 'p) Broker) option" where
  "receive s c =
     (case chans s c of
        [] \<Rightarrow> None
      | m # ms \<Rightarrow> Some (m, s\<lparr>chans := (chans s)(c := ms)\<rparr>))"

subsection \<open>The dispatcher\<close>

text \<open>Lines 138-143, under the write lock: the message is appended to the pending entry
  of its id, which is created empty when it is missing.\<close>

definition park ::
  "('w word, 'p) Broker \<Rightarrow> 'w word \<Rightarrow> ('w word, 'p) HareMessage \<Rightarrow> ('w word, 'p) Broker" where
  "park s msgInstId hareMsg =
     s\<lparr>pending := (pending s)(msgInstId \<mapsto>
          (case pending s msgInstId of None \<Rightarrow> [] | Some ms \<Rightarrow> ms) @ [hareMsg])\<rparr>"

text \<open>Lines 131-144: the route of a validated message, the lookup of line 132 and what
  follows it taken in one state.\<close>

definition route ::
  "('w word, 'p) Broker \<Rightarrow> 'w word \<Rightarrow> bool \<Rightarrow> ('w word, 'p) HareMessage \<Rightarrow> ('w word, 'p) Broker option" where
  "route s msgInstId futureMsg hareMsg =
     (case outbox s msgInstId of
        Some c \<Rightarrow> send s c hareMsg
      | None \<Rightarrow> if futureMsg then Some (park s msgInstId hareMsg) else Some s)"

text \<open>Lines 83-144: what the dispatcher does with one value \<open>msg\<close> taken from the inbox.
  The result is the calls made on the envelope and the validator, in order, and the state
  in which the pass ends (\<open>None\<close>: it is blocked in the send of line 136).\<close>

definition dispatch ::
  "(bytes \<Rightarrow> ('w::len word, 'p) HareMessage option) \<Rightarrow> ('w word, 'p) Broker \<Rightarrow> GossipMessage option \<Rightarrow>
     ('w word, 'p) event list \<times> ('w word, 'p) Broker option" where
  "dispatch unm s msg =
     (case msg of
        None \<Rightarrow> ([], Some s)
      | Some m \<Rightarrow>
          (case unm (Bytes m) of
             None \<Rightarrow> ([ReportValidation m False], Some s)
           | Some hareMsg \<Rightarrow>
               (case Message hareMsg of
                  None \<Rightarrow> ([ReportValidation m False], Some s)
                | Some inner \<Rightarrow>
                    (let expInstId = maxReg s;
                         msgInstId = InstanceId inner
                     in if msgInstId > expInstId + 1
                        then ([ReportValidation m False], Some s)
                        else
                          (let futureMsg = (msgInstId = expInstId + 1)
                           in if \<not> eValidator s hareMsg
                              then ([Validate hareMsg, ReportValidation m False], Some s)
                              else ([Validate hareMsg, ReportValidation m True],
                                    route s msgInstId futureMsg hareMsg))))))"

subsection \<open>Register and Unregister\<close>

text \<open>Lines 165-167: the loop over the parked messages, each sent to \<^verbatim>\<open>broker.outbox[id]\<close>.
  A send on the nil channel of a missing entry blocks forever.\<close>

fun sweep ::
  "('w word, 'p) Broker \<Rightarrow> 'w word \<Rightarrow> ('w word, 'p) HareMessage list \<Rightarrow> ('w word, 'p) Broker option" where
  "sweep s iid [] = Some s"
| "sweep s iid (mOut # ms) =
     (case outbox s iid of
        None \<Rightarrow> None
      | Some c \<Rightarrow> (case send s c mOut of None \<Rightarrow> None | Some s' \<Rightarrow> sweep s' iid ms))"

text \<open>\<^verbatim>\<open>Register\<close> returns the new channel. No other goroutine holds that channel before
  the call returns, and the write lock is held throughout, so a send that blocks in the
  loop blocks forever: \<open>None\<close>.\<close>

definition Register ::
  "('w::len word, 'p) Broker \<Rightarrow> 'w word \<Rightarrow> (('w word, 'p) Broker \<times> nat) option" where
  "Register s iid =
     (let s1 = (if iid > maxReg s then s\<lparr>maxReg := iid\<rparr> else s);
          c = nchans s1;
          s2 = s1\<lparr>chans := (chans s1)(c := []), nchans := Suc c\<rparr>;
          s3 = s2\<lparr>outbox := (outbox s2)(iid \<mapsto> c)\<rparr>
      in case pending s3 iid of
           None \<Rightarrow> Some (s3, c)
         | Some pendingForInstance \<Rightarrow>
             (case sweep s3 iid pendingForInstance of
                None \<Rightarrow> None
              | Some s4 \<Rightarrow> Some (s4\<lparr>pending := (pending s4)(iid := None)\<rparr>, c)))"

definition Unregister :: "('w word, 'p) Broker \<Rightarrow> 'w word \<Rightarrow> ('w word, 'p) Broker" where
  "Unregister s iid = s\<lparr>outbox := (outbox s)(iid := None)\<rparr>"

subsection \<open>Start and Close\<close>

datatype error = StartInstanceError

text \<open>\<^verbatim>\<open>Start\<close>: the error it returns (\<open>None\<close> is nil) and the state. The inbox is the
  channel the transport hands out; the dispatcher goroutine is launched.\<close>

definition Start :: "('w word, 'p) Broker \<Rightarrow> error option \<times> ('w word, 'p) Broker" where
  "Start s =
     (if isStarted s then (Some StartInstanceError, s)
      else (None, s\<lparr>isStarted := True, inbox := [], running := True\<rparr>))"

text \<open>\<^verbatim>\<open>Close\<close>: closing a closed channel panics (\<open>None\<close>).\<close>

definition Close :: "('w word, 'p) Broker \<Rightarrow> ('w word, 'p) Broker option" where
  "Close s = (if closed s then None else Some (s\<lparr>closed := True\<rparr>))"

subsection \<open>Schedules\<close>

text \<open>The steps of the system. \<open>SelectInbox\<close> and \<open>SelectClose\<close> are the two cases of the
  dispatcher's \<^verbatim>\<open>select\<close>: the first can be taken when the inbox holds a value, the
  second when the close channel is closed. When both can, Go's \<^verbatim>\<open>select\<close> takes either.
  \<open>Arrive\<close> is the transport putting an envelope on the inbox, \<open>Consume c\<close> a consumer
  receiving from channel \<open>c\<close>.\<close>

datatype 'i action =
    Arrive "GossipMessage option"
  | SelectInbox
  | SelectClose
  | CallStart
  | CallClose
  | CallRegister 'i
  | CallUnregister 'i
  | Consume nat

text \<open>One step: the events it makes and the next state; \<open>None\<close> when the step cannot be
  taken or does not complete in this state.\<close>

fun step ::
  "(bytes \<Rightarrow> ('w::len word, 'p) HareMessage option) \<Rightarrow> 'w word action \<Rightarrow> ('w word, 'p) Broker \<Rightarrow>
     (('w word, 'p) event list \<times> ('w word, 'p) Broker) option" where
  "step unm (Arrive m) s =
     (if isStarted s then Some ([], s\<lparr>inbox := inbox s @ [m]\<rparr>) else None)"
| "step unm SelectInbox s =
     (if running s
      then (case inbox s of
              [] \<Rightarrow> None
            | msg # rest \<Rightarrow>
                (case dispatch unm (s\<lparr>inbox := rest\<rparr>) msg of
                   (evs, None) \<Rightarrow> None
                 | (evs, Some s') \<Rightarrow> Some (evs, s')))
      else None)"
| "step unm SelectClose s =
     (if running s \<and> closed s then Some ([], s\<lparr>running := False\<rparr>) else None)"
| "step unm CallStart s = Some ([], snd (Start s))"
| "step unm CallClose s = (case Close s of None \<Rightarrow> None | Some s' \<Rightarrow> Some ([], s'))"
| "step unm (CallRegister iid) s =
     (case Register s iid of None \<Rightarrow> None | Some (s', c) \<Rightarrow> Some ([], s'))"
| "step unm (CallUnregister iid) s = Some ([], Unregister s iid)"
| "step unm (Consume c) s =
     (case receive s c of None \<Rightarrow> None | Some (m, s') \<Rightarrow> Some ([], s'))"

fun run ::
  "(bytes \<Rightarrow> ('w::len word, 'p) HareMessage option) \<Rightarrow> 'w word action list \<Rightarrow> ('w word, 'p) Broker \<Rightarrow>
     (('w word, 'p) event list \<times> ('w word, 'p) Broker) option" where
  "run unm [] s = Some ([], s)"
| "run unm (a # as) s =
     (case step unm a s of
        None \<Rightarrow> None
      | Some (e1, s1) \<Rightarrow>
          (case run unm as s1 of
             None \<Rightarrow> None
           | Some (e2, s2) \<Rightarrow> Some (e1 @ e2, s2)))"

subsection \<open>The lock sections of a pass\<close>

text \<open>Where the dispatcher goroutine stands between two moves, with its local variables:
  at the \<^verbatim>\<open>select\<close>, before the read lock of line 105, before the read lock of line 131,
  before the send of line 136, before the write lock of line 138.\<close>

datatype ('i, 'p) place =
    AtSelect
  | AtSnapshot GossipMessage "('i, 'p) HareMessage" "('i, 'p) InnerMessage"
  | AtLookup "('i, 'p) HareMessage" 'i bool
  | AtSend nat "('i, 'p) HareMessage"
  | AtPark 'i "('i, 'p) HareMessage"

text \<open>Lines 83-103, without the lock: the nil check, decoding, the payload check.\<close>

definition decode_msg ::
  "(bytes \<Rightarrow> ('w::len word, 'p) HareMessage option) \<Rightarrow> GossipMessage option \<Rightarrow>
     ('w word, 'p) event list \<times> ('w word, 'p) place" where
  "decode_msg unm msg =
     (case msg of
        None \<Rightarrow> ([], AtSelect)
      | Some m \<Rightarrow>
          (case unm (Bytes m) of
             None \<Rightarrow> ([ReportValidation m False], AtSelect)
           | Some hareMsg \<Rightarrow>
               (case Message hareMsg of
                  None \<Rightarrow> ([ReportValidation m False], AtSelect)
                | Some inner \<Rightarrow> ([], AtSnapshot m hareMsg inner))))"

text \<open>Lines 105-129: the snapshot of \<open>maxReg\<close> under the read lock, then, without the lock,
  the gate, the validator and the report.\<close>

definition gate ::
  "('w::len word, 'p) Broker \<Rightarrow> GossipMessage \<Rightarrow> ('w word, 'p) HareMessage \<Rightarrow>
     ('w word, 'p) InnerMessage \<Rightarrow> ('w word, 'p) event list \<times> ('w word, 'p) place" where
  "gate s m hareMsg inner =
     (let expInstId = maxReg s;
          msgInstId = InstanceId inner
      in if msgInstId > expInstId + 1
         then ([ReportValidation m False], AtSelect)
         else
           (let futureMsg = (msgInstId = expInstId + 1)
            in if \<not> eValidator s hareMsg
               then ([Validate hareMsg, ReportValidation m False], AtSelect)
               else ([Validate hareMsg, ReportValidation m True],
                     AtLookup hareMsg msgInstId futureMsg)))"

text \<open>Lines 131-137 and 144: the lookup under the read lock and the choice that follows
  it.\<close>

definition lookup ::
  "('w word, 'p) Broker \<Rightarrow> ('w word, 'p) HareMessage \<Rightarrow> 'w word \<Rightarrow> bool \<Rightarrow> ('w word, 'p) place" where
  "lookup s hareMsg msgInstId futureMsg =
     (case outbox s msgInstId of
        Some c \<Rightarrow> AtSend c hareMsg
      | None \<Rightarrow> if futureMsg then AtPark msgInstId hareMsg else AtSelect)"

text \<open>The state in which the loop of lines 165-167 stands still: at its end, or at the
  first send that blocks.\<close>

fun sweep_stop ::
  "('w word, 'p) Broker \<Rightarrow> 'w word \<Rightarrow> ('w word, 'p) HareMessage list \<Rightarrow> ('w word, 'p) Broker" where
  "sweep_stop s iid [] = s"
| "sweep_stop s iid (mOut # ms) =
     (case outbox s iid of
        None \<Rightarrow> s
      | Some c \<Rightarrow> (case send s c mOut of None \<Rightarrow> s | Some s' \<Rightarrow> sweep_stop s' iid ms))"

text \<open>The state of the broker in which a call of \<^verbatim>\<open>Register\<close> that does not return stands
  still: lines 156-163 are done, the sweep has sent what fitted.\<close>

definition Register_blocked :: "('w::len word, 'p) Broker \<Rightarrow> 'w word \<Rightarrow> ('w word, 'p) Broker" where
  "Register_blocked s iid =
     (let s1 = (if iid > maxReg s then s\<lparr>maxReg := iid\<rparr> else s);
          c = nchans s1;
          s2 = s1\<lparr>chans := (chans s1)(c := []), nchans := Suc c\<rparr>;
          s3 = s2\<lparr>outbox := (outbox s2)(iid \<mapsto> c)\<rparr>
      in case pending s3 iid of
           None \<Rightarrow> s3
         | Some pendingForInstance \<Rightarrow> sweep_stop s3 iid pendingForInstance)"

text \<open>The broker, the place of its dispatcher, and whether a blocked \<^verbatim>\<open>Register\<close> holds
  the write lock. Every lock section is one move, so the lock is free between two moves
  unless a \<^verbatim>\<open>Register\<close> stands in its sweep.\<close>

record ('i, 'p) System =
  broker :: "('i, 'p) Broker"
  at :: "('i, 'p) place"
  wlocked :: bool

definition idle :: "('w word, 'p) Broker \<Rightarrow> ('w word, 'p) System" where
  "idle s = \<lparr> broker = s, at = AtSelect, wlocked = False \<rparr>"

datatype 'i move =
    Arrives "GossipMessage option"
  | Takes
  | Snapshots
  | Looks
  | Sends
  | Parks
  | Exits
  | Starts
  | Closes
  | Registers 'i
  | Unregisters 'i
  | Consumes nat

text \<open>One move. The moves that take the lock cannot be made while it is held; \<open>Sends\<close>
  cannot be made while the channel is full. A call of \<^verbatim>\<open>Register\<close> that blocks in its
  sweep is a move into a state with the write lock held.\<close>

fun do_move ::
  "(bytes \<Rightarrow> ('w::len word, 'p) HareMessage option) \<Rightarrow> 'w word move \<Rightarrow> ('w word, 'p) System \<Rightarrow>
     (('w word, 'p) event list \<times> ('w word, 'p) System) option" where
  "do_move unm (Arrives m) y =
     (if isStarted (broker y)
      then Some ([], y\<lparr>broker := (broker y)\<lparr>inbox := inbox (broker y) @ [m]\<rparr>\<rparr>)
      else None)"
| "do_move unm Takes y =
     (if running (broker y) \<and> at y = AtSelect
      then (case inbox (broker y) of
              [] \<Rightarrow> None
            | msg # rest \<Rightarrow>
                (case decode_msg unm msg of
                   (evs, p) \<Rightarrow> Some (evs, y\<lparr>broker := (broker y)\<lparr>inbox := rest\<rparr>, at := p\<rparr>)))
      else None)"
| "do_move unm Snapshots y =
     (if wlocked y then None
      else (case at y of
              AtSnapshot m hareMsg inner \<Rightarrow>
                (case gate (broker y) m hareMsg inner of (evs, p) \<Rightarrow> Some (evs, y\<lparr>at := p\<rparr>))
            | _ \<Rightarrow> None))"
| "do_move unm Looks y =
     (if wlocked y then None
      else (case at y of
              AtLookup hareMsg msgInstId futureMsg \<Rightarrow>
                Some ([], y\<lparr>at := lookup (broker y) hareMsg msgInstId futureMsg\<rparr>)
            | _ \<Rightarrow> None))"
| "do_move unm Sends y =
     (case at y of
        AtSend c hareMsg \<Rightarrow>
          (case send (broker y) c hareMsg of
             None \<Rightarrow> None
           | Some s' \<Rightarrow> Some ([], y\<lparr>broker := s', at := AtSelect\<rparr>))
      | _ \<Rightarrow> None)"
| "do_move unm Parks y =
     (if wlocked y then None
      else (case at y of
              AtPark msgInstId hareMsg \<Rightarrow>
                Some ([], y\<lparr>broker := park (broker y) msgInstId hareMsg, at := AtSelect\<rparr>)
            | _ \<Rightarrow> None))"
| "do_move unm Exits y =
     (if running (broker y) \<and> at y = AtSelect \<and> closed (broker y)
      then Some ([], y\<lparr>broker := (broker y)\<lparr>running := False\<rparr>\<rparr>)
      else None)"
| "do_move unm Starts y = Some ([], y\<lparr>broker := snd (Start (broker y))\<rparr>)"
| "do_move unm Closes y =
     (case Close (broker y) of None \<Rightarrow> None | Some s' \<Rightarrow> Some ([], y\<lparr>broker := s'\<rparr>))"
| "do_move unm (Registers iid) y =
     (if wlocked y then None
      else (case Register (broker y) iid of
              None \<Rightarrow> Some ([], y\<lparr>broker := Register_blocked (broker y) iid, wlocked := True\<rparr>)
            | Some (s', c) \<Rightarrow> Some ([], y\<lparr>broker := s'\<rparr>)))"
| "do_move unm (Unregisters iid) y =
     (if wlocked y then None else Some ([], y\<lparr>broker := Unregister (broker y) iid\<rparr>))"
| "do_move unm (Consumes c) y =
     (case receive (broker y) c of None \<Rightarrow> None | Some (m, s') \<Rightarrow> Some ([], y\<lparr>broker := s'\<rparr>))"

fun do_moves ::
  "(bytes \<Rightarrow> ('w::len word, 'p) HareMessage option) \<Rightarrow> 'w word move list \<Rightarrow> ('w word, 'p) System \<Rightarrow>
     (('w word, 'p) event list \<times> ('w word, 'p) System) option" where
  "do_moves unm [] y = Some ([], y)"
| "do_moves unm (a # as) y =
     (case do_move unm a y of
        None \<Rightarrow> None
      | Some (e1, y1) \<Rightarrow>
          (case do_moves unm as y1 of
             None \<Rightarrow> None
           | Some (e2, y2) \<Rightarrow> Some (e1 @ e2, y2)))"

subsection \<open>Auxiliary definitions for the statements\<close>

text \<open>The messages parked for an id: the slice \<^verbatim>\<open>broker.pending[id]\<close>, nil (no entry) read as
  the empty list.\<close>

definition parked :: "('w word, 'p) Broker \<Rightarrow> 'w word \<Rightarrow> ('w word, 'p) HareMessage list" where
  "parked s i = (case pending s i of None \<Rightarrow> [] | Some ms \<Rightarrow> ms)"

text \<open>The verdict the specification gives for an envelope: true unless decoding fails, the
  payload is nil, the id is greater than \<open>maxReg + 1\<close>, or the validator says no. The ids
  are compared as numbers: the sum does not wrap.\<close>

definition verdict ::
  "(bytes \<Rightarrow> ('w::len word, 'p) HareMessage option) \<Rightarrow> ('w word, 'p) Broker \<Rightarrow> GossipMessage \<Rightarrow> bool" where
  "verdict unm s m =
     (case unm (Bytes m) of
        None \<Rightarrow> False
      | Some hareMsg \<Rightarrow>
          (case Message hareMsg of
             None \<Rightarrow> False
           | Some inner \<Rightarrow>
               \<not> unat (maxReg s) + 1 < unat (InstanceId inner) \<and> eValidator s hareMsg))"

text \<open>A concrete instance for runs on concrete inputs: 32-bit ids, a decoder that reads a
  single byte as the instance id of a message with a payload, the empty input as a record
  without payload, and fails on anything longer; a validator that accepts everything.\<close>

definition demo_Unmarshal :: "bytes \<Rightarrow> (32 word, unit) HareMessage option" where
  "demo_Unmarshal bs =
     (case bs of
        [] \<Rightarrow> Some \<lparr>Message = None, Rest = ()\<rparr>
      | [b] \<Rightarrow> Some \<lparr>Message = Some \<lparr>InstanceId = ucast b, Fields = ()\<rparr>, Rest = ()\<rparr>
      | _ \<Rightarrow> None)"

definition demo_msg :: "32 word \<Rightarrow> (32 word, unit) HareMessage" where
  "demo_msg i = \<lparr>Message = Some \<lparr>InstanceId = i, Fields = ()\<rparr>, Rest = ()\<rparr>"

definition demo_Broker :: "(32 word, unit) Broker" where
  "demo_Broker = NewBroker (\<lambda>h. True)"

text \<open>An envelope that decodes to a message with a payload for instance \<open>k\<close> which the
  validator accepts.\<close>

definition accepts ::
  "(bytes \<Rightarrow> ('w::len word, 'p) HareMessage option) \<Rightarrow> ('w word, 'p) Broker \<Rightarrow> 'w word \<Rightarrow>
     GossipMessage \<Rightarrow> bool" where
  "accepts unm s k m =
     (case unm (Bytes m) of
        None \<Rightarrow> False
      | Some hareMsg \<Rightarrow>
          (case Message hareMsg of
             None \<Rightarrow> False
           | Some inner \<Rightarrow> InstanceId inner = k \<and> eValidator s hareMsg))"

text \<open>The messages a list of envelopes decodes to, in order.\<close>

definition decoded ::
  "(bytes \<Rightarrow> ('w::len word, 'p) HareMessage option) \<Rightarrow> GossipMessage list \<Rightarrow>
     ('w word, 'p) HareMessage list" where
  "decoded unm ms = List.map_filter (\<lambda>m. unm (Bytes m)) ms"

text \<open>Scenario 5 of the specification up to the arrival of the messages: the broker is
  started, instance 5 is registered, three envelopes for instance 6 wait in the inbox.\<close>

definition demo_waiting :: "(32 word, unit) Broker" where
  "demo_waiting =
     snd (the (run demo_Unmarshal
       [CallStart, CallRegister 5, Arrive (Some (GossipMessage [6])),
        Arrive (Some (GossipMessage [6])), Arrive (Some (GossipMessage [6]))] demo_Broker))"

text \<open>The broker after \<^verbatim>\<open>Close\<close> with two deliverable envelopes still in the inbox:
  instances 1 and 2 are registered, an envelope for each has arrived.\<close>

definition demo_closed :: "(32 word, unit) Broker" where
  "demo_closed =
     snd (the (run demo_Unmarshal
       [CallStart, CallRegister 1, CallRegister 2, Arrive (Some (GossipMessage [1])),
        Arrive (Some (GossipMessage [2])), CallClose] demo_Broker))"

text \<open>The broker after its dispatcher has returned, with one message parked for
  instance 1.\<close>

definition demo_returned :: "(32 word, unit) Broker" where
  "demo_returned =
     snd (the (run demo_Unmarshal
       [CallStart, Arrive (Some (GossipMessage [1])), SelectInbox, CallClose, SelectClose]
       demo_Broker))"

text \<open>The broker after \<^verbatim>\<open>Start\<close> and \<^verbatim>\<open>Register(4294967295)\<close>: the watermark is the largest
  id.\<close>

definition demo_max :: "(32 word, unit) Broker" where
  "demo_max = snd (the (run demo_Unmarshal [CallStart, CallRegister 4294967295] demo_Broker))"

text \<open>The watermark bounds what is parked and what the dispatcher is about to park: every
  key of the pending map, the id the dispatcher stands with before the write lock of line
  138, and the id of a message it has marked as near future, is at most \<open>maxReg\<close> or equal
  to \<open>maxReg + 1\<close>.\<close>

definition near :: "('w::len word, 'p) Broker \<Rightarrow> 'w word \<Rightarrow> bool" where
  "near s k = (k \<le> maxReg s \<or> k = maxReg s + 1)"

definition watermark_ok :: "('w::len word, 'p) System \<Rightarrow> bool" where
  "watermark_ok y =
     ((\<forall>k ms. pending (broker y) k = Some ms \<longrightarrow> near (broker y) k) \<and>
      (\<forall>k h. at y = AtPark k h \<longrightarrow> near (broker y) k) \<and>
      (\<forall>h k. at y = AtLookup h k True \<longrightarrow> near (broker y) k))"

section \<open>Register\<close>

text \<open>The equations that evaluate the operations on a concrete broker.\<close>

lemmas demo_defs =
  demo_Unmarshal_def demo_Broker_def demo_msg_def NewBroker_def Start_def Close_def
  Register_def Unregister_def dispatch_def route_def park_def send_def receive_def Let_def
  InboxCapacity_def

text \<open>The pending sweep succeeds when everything fits into the channel and blocks
  otherwise.\<close>

lemma sweep_fits:
  "outbox s i = Some c \<Longrightarrow> length (chans s c) + length ms \<le> InboxCapacity \<Longrightarrow>
   sweep s i ms = Some (s\<lparr>chans := (chans s)(c := chans s c @ ms)\<rparr>)"
proof (induction ms arbitrary: s)
  case Nil
  then show ?case by simp
next
  case (Cons m ms)
  let ?s1 = "s\<lparr>chans := (chans s)(c := chans s c @ [m])\<rparr>"
  from Cons.prems have snd: "send s c m = Some ?s1"
    by (simp add: send_def)
  have "sweep ?s1 i ms = Some (?s1\<lparr>chans := (chans ?s1)(c := chans ?s1 c @ ms)\<rparr>)"
    using Cons.prems by (intro Cons.IH) simp_all
  then have "sweep ?s1 i ms = Some (s\<lparr>chans := (chans s)(c := chans s c @ m # ms)\<rparr>)"
    by simp
  with snd Cons.prems(1) show ?case by (simp del: fun_upd_apply)
qed

lemma sweep_blocks:
  "outbox s i = Some c \<Longrightarrow> length (chans s c) \<le> InboxCapacity \<Longrightarrow>
   InboxCapacity < length (chans s c) + length ms \<Longrightarrow> sweep s i ms = None"
proof (induction ms arbitrary: s)
  case Nil
  then show ?case by simp
next
  case (Cons m ms)
  show ?case
  proof (cases "length (chans s c) < InboxCapacity")
    case False
    with Cons.prems(1) show ?thesis by (simp add: send_def)
  next
    case True
    let ?s1 = "s\<lparr>chans := (chans s)(c := chans s c @ [m])\<rparr>"
    from True have snd: "send s c m = Some ?s1"
      by (simp add: send_def)
    have "sweep ?s1 i ms = None"
      using Cons.prems True by (intro Cons.IH) simp_all
    with snd Cons.prems(1) show ?thesis by (simp del: fun_upd_apply)
  qed
qed

lemma sweep_fresh:
  "sweep (t\<lparr>chans := f(c := []), nchans := n, outbox := g(i \<mapsto> c)\<rparr>) i ms =
     (if length ms \<le> InboxCapacity
      then Some (t\<lparr>chans := f(c := ms), nchans := n, outbox := g(i \<mapsto> c)\<rparr>)
      else None)"
proof (cases "length ms \<le> InboxCapacity")
  case True
  let ?t = "t\<lparr>chans := f(c := []), nchans := n, outbox := g(i \<mapsto> c)\<rparr>"
  have "sweep ?t i ms = Some (?t\<lparr>chans := (chans ?t)(c := chans ?t c @ ms)\<rparr>)"
    using True by (intro sweep_fits) simp_all
  with True show ?thesis by simp
next
  case False
  let ?t = "t\<lparr>chans := f(c := []), nchans := n, outbox := g(i \<mapsto> c)\<rparr>"
  have "sweep ?t i ms = None"
    using False by (intro sweep_blocks [where c = c]) simp_all
  with False show ?thesis by simp
qed

lemma Register_eq:
  "Register s i =
     (if length (parked s i) \<le> InboxCapacity
      then Some (s\<lparr>maxReg := max (maxReg s) i,
                    chans := (chans s)(nchans s := parked s i),
                    nchans := Suc (nchans s),
                    outbox := (outbox s)(i \<mapsto> nchans s),
                    pending := (pending s)(i := None)\<rparr>, nchans s)
      else None)"
proof (cases "pending s i")
  case None
  then have "(pending s)(i := None) = pending s" by (simp add: fun_upd_idem)
  with None show ?thesis
    by (simp add: Register_def parked_def max_def not_less Let_def del: fun_upd_apply)
next
  case (Some ms)
  then show ?thesis
    by (simp add: Register_def parked_def max_def not_less Let_def sweep_fresh
        del: fun_upd_apply)
qed

text \<open>
  Claim C10. \<^verbatim>\<open>Register(id)\<close> returns exactly when \<^verbatim>\<open>pending[id]\<close> holds at most 100
  messages: the sweep sends every parked message into the new channel of capacity 100
  before any consumer can receive from it, so with more than 100 parked messages the call
  blocks forever.
\<close>

theorem Register_returns_iff:
  "((\<exists>r. Register s i = Some r) \<longleftrightarrow> length (parked s i) \<le> 100) \<and>
   (Register s i = None \<longleftrightarrow> 100 < length (parked s i))"
  by (simp add: Register_eq InboxCapacity_def not_le)

section \<open>One pass of the dispatcher\<close>

text \<open>The test of line 111 is the comparison of the numbers unless the watermark is the
  largest id, where \<open>maxReg + 1\<close> wraps to 0.\<close>

lemma gate_as_numbers:
  fixes m i :: "'a::len word"
  assumes "m \<noteq> - 1"
  shows "(m + 1 < i) = (unat m + 1 < unat i)"
proof -
  from assms have "m + 1 \<noteq> 0"
    by (metis max_word_wrap)
  then have "1 + m \<noteq> 0"
    by (simp add: add.commute)
  then have "unat (1 + m) = Suc (unat m)"
    by (rule unatSuc)
  then have "unat (m + 1) = unat m + 1"
    by (simp add: add.commute)
  then show ?thesis
    by (simp add: word_less_nat_alt)
qed

text \<open>Below the largest watermark a pass over a non-nil envelope makes exactly one
  \<^verbatim>\<open>ReportValidation\<close> call, whether or not it then blocks in the send of line 136, and
  the verdict is the one the specification gives.\<close>

lemma dispatch_reports_verdict:
  assumes "maxReg s \<noteq> - 1"
  shows "filter is_report (fst (dispatch unm s (Some m))) =
    [ReportValidation m (verdict unm s m)]"
  using assms
  by (simp add: dispatch_def verdict_def Let_def gate_as_numbers split: option.splits)

text \<open>
  Claim C1. At the largest watermark the claim fails: after \<^verbatim>\<open>Register(4294967295)\<close> an
  envelope for instance 5 decodes, has a payload, its id 5 is not greater than
  \<open>maxReg + 1\<close> as numbers, and the validator accepts it, so the specification's verdict
  is true; the pass makes one \<^verbatim>\<open>ReportValidation\<close> call with verdict false, because the sum
  of line 111 wraps to 0.
\<close>

theorem misreport_at_max_watermark:
  "maxReg demo_max = 4294967295 \<and>
   demo_Unmarshal (Bytes (GossipMessage [5])) = Some (demo_msg 5) \<and>
   Message (demo_msg 5) = Some \<lparr>InstanceId = 5, Fields = ()\<rparr> \<and>
   eValidator demo_max (demo_msg 5) \<and>
   verdict demo_Unmarshal demo_max (GossipMessage [5]) \<and>
   filter is_report (fst (dispatch demo_Unmarshal demo_max (Some (GossipMessage [5])))) =
     [ReportValidation (GossipMessage [5]) False]"
  by (simp add: demo_max_def demo_defs verdict_def)

text \<open>
  Claim C3. A decoded message whose id is greater than the snapshot of \<open>maxReg\<close> plus one
  is reported with verdict false and nothing else happens: the validator is not called,
  the pass ends in the state it started in, so no queue and no pending entry changes.
\<close>

theorem far_future_dropped:
  assumes "unm (Bytes m) = Some h" and "Message h = Some inner"
    and "maxReg s + 1 < InstanceId inner"
  shows "dispatch unm s (Some m) = ([ReportValidation m False], Some s)"
  using assms by (simp add: dispatch_def Let_def)

theorem far_future_dropped_witness:
  "demo_Unmarshal (Bytes (GossipMessage [7])) = Some (demo_msg 7) \<and>
   Message (demo_msg 7) = Some \<lparr>InstanceId = 7, Fields = ()\<rparr> \<and>
   maxReg (demo_Broker\<lparr>maxReg := 5\<rparr>) + 1 < InstanceId \<lparr>InstanceId = 7 :: 32 word, Fields = ()\<rparr> \<and>
   dispatch demo_Unmarshal (demo_Broker\<lparr>maxReg := 5\<rparr>) (Some (GossipMessage [7])) =
     ([ReportValidation (GossipMessage [7]) False], Some (demo_Broker\<lparr>maxReg := 5\<rparr>))"
proof -
  have a: "demo_Unmarshal (Bytes (GossipMessage [7])) = Some (demo_msg 7)"
    by (simp add: demo_Unmarshal_def demo_msg_def)
  have b: "Message (demo_msg 7) = Some \<lparr>InstanceId = 7, Fields = ()\<rparr>"
    by (simp add: demo_msg_def)
  have c: "maxReg (demo_Broker\<lparr>maxReg := 5\<rparr>) + 1
             < InstanceId \<lparr>InstanceId = 7 :: 32 word, Fields = ()\<rparr>"
    by simp
  from far_future_dropped
    [of demo_Unmarshal "GossipMessage [7]" "demo_msg 7" "\<lparr>InstanceId = 7, Fields = ()\<rparr>"
        "demo_Broker\<lparr>maxReg := 5\<rparr>", OF a b c] a b c
  show ?thesis by simp
qed

text \<open>The same holds when the comparison is read in the natural numbers: an id greater
  than \<open>maxReg + 1\<close> there is greater than the wrapping sum of line 111 too.\<close>

lemma far_future_nat:
  fixes m i :: "'a::len word"
  assumes "unat m + 1 < unat i"
  shows "m + 1 < i"
proof -
  have "unat i < 2 ^ LENGTH('a)"
    by (rule unsigned_less)
  with assms have "unat m + unat (1 :: 'a word) < 2 ^ LENGTH('a)"
    by (metis Suc_eq_plus1 less_trans unat_1)
  then have "unat (m + 1) = unat m + unat (1 :: 'a word)"
    by (simp only: unat_add_lem)
  with assms show ?thesis by (simp add: word_less_nat_alt)
qed

text \<open>
  A message at or below the watermark with no outbox entry is accepted and dropped, as
  long as \<open>maxReg + 1\<close> does not wrap around: the validator is called, the verdict is true,
  and the pass ends in the state it started in.
\<close>

lemma stale_dropped:
  assumes "unm (Bytes m) = Some h" and "Message h = Some inner"
    and "InstanceId inner \<le> maxReg s" and "maxReg s + 1 \<noteq> 0"
    and "outbox s (InstanceId inner) = None" and "eValidator s h"
  shows "dispatch unm s (Some m) = ([Validate h, ReportValidation m True], Some s)"
proof -
  from assms(4) have "maxReg s \<noteq> - 1"
    by auto
  with assms(3) have "\<not> maxReg s + 1 \<le> InstanceId inner"
    by (simp add: inc_less_eq_iff not_less)
  then have "InstanceId inner < maxReg s + 1"
    by simp
  then have "\<not> maxReg s + 1 < InstanceId inner" and "InstanceId inner \<noteq> maxReg s + 1"
    by auto
  with assms show ?thesis
    by (simp add: dispatch_def Let_def route_def park_def)
qed

text \<open>
  Claim C7. At the largest id the sum \<open>maxReg + 1\<close> of line 111 wraps to 0. After
  \<^verbatim>\<open>Register(4294967295)\<close> a decodable, valid message for instance 5, which is below the
  watermark and has no outbox entry, is reported with verdict false: the far-future gate
  takes it, where the claim promises verdict true. A message for instance 0 passes as
  near future and is parked, where the claim promises that it is not added to pending.
\<close>

theorem stale_rejected_at_max_watermark:
  "maxReg (snd (the (run demo_Unmarshal [CallStart, CallRegister 4294967295] demo_Broker)))
     = 4294967295 \<and>
   outbox (snd (the (run demo_Unmarshal [CallStart, CallRegister 4294967295] demo_Broker))) 5
     = None \<and>
   accepts demo_Unmarshal
     (snd (the (run demo_Unmarshal [CallStart, CallRegister 4294967295] demo_Broker))) 5
     (GossipMessage [5]) \<and>
   (5 :: 32 word) \<le> 4294967295 \<and>
   map_option fst
     (run demo_Unmarshal
        [CallStart, CallRegister 4294967295, Arrive (Some (GossipMessage [5])), SelectInbox]
        demo_Broker) =
   Some [ReportValidation (GossipMessage [5]) False] \<and>
   pending (snd (the
     (run demo_Unmarshal
        [CallStart, CallRegister 4294967295, Arrive (Some (GossipMessage [0])), SelectInbox]
        demo_Broker))) 0 =
   Some [demo_msg 0]"
  by (simp add: demo_defs accepts_def)

section \<open>Steps and schedules\<close>

text \<open>What a completed pass of the dispatcher can change: nothing, one channel (a delivery),
  or the pending entry of the id one above the watermark (a parked message).\<close>

lemma dispatch_effect:
  assumes "dispatch unm s msg = (evs, Some s')"
  shows "s' = s \<or>
    (\<exists>c h k. outbox s k = Some c \<and> length (chans s c) < InboxCapacity \<and>
       s' = s\<lparr>chans := (chans s)(c := chans s c @ [h])\<rparr>) \<or>
    (\<exists>h. outbox s (maxReg s + 1) = None \<and>
       s' = s\<lparr>pending := (pending s)(maxReg s + 1 \<mapsto> parked s (maxReg s + 1) @ [h])\<rparr>)"
  using assms
  by (auto simp: dispatch_def route_def park_def send_def parked_def Let_def
      split: option.splits if_splits simp del: fun_upd_apply)

text \<open>A property kept by every step is kept by every schedule.\<close>

lemma run_invariant:
  assumes "\<And>a s evs s'. P s \<Longrightarrow> step unm a s = Some (evs, s') \<Longrightarrow> P s'"
    and "P s" and "run unm acts s = Some (evs, s')"
  shows "P s'"
  using assms(2,3)
proof (induction acts arbitrary: s evs)
  case Nil
  then show ?case by simp
next
  case (Cons a acts)
  from Cons.prems(2) obtain e1 s1 e2 where
    st: "step unm a s = Some (e1, s1)" and rn: "run unm acts s1 = Some (e2, s')"
    by (auto split: option.splits)
  from assms(1) [OF Cons.prems(1) st] have "P s1" .
  from Cons.IH [OF this rn] show ?case .
qed

text \<open>The effect of each step on the state.\<close>

lemma step_effect:
  assumes "step unm a s = Some (evs, s')"
  shows
    "(\<exists>m. a = Arrive m \<and> s' = s\<lparr>inbox := inbox s @ [m]\<rparr>) \<or>
     (\<exists>msg. a = SelectInbox \<and> running s \<and> dispatch unm (s\<lparr>inbox := tl (inbox s)\<rparr>) msg = (evs, Some s')) \<or>
     (a = SelectClose \<and> running s \<and> closed s \<and> s' = s\<lparr>running := False\<rparr>) \<or>
     (a = CallStart \<and> isStarted s \<and> s' = s) \<or>
     (a = CallStart \<and> \<not> isStarted s \<and> s' = s\<lparr>isStarted := True, inbox := [], running := True\<rparr>) \<or>
     (a = CallClose \<and> \<not> closed s \<and> s' = s\<lparr>closed := True\<rparr>) \<or>
     (\<exists>i. a = CallRegister i \<and> length (parked s i) \<le> InboxCapacity \<and>
        s' = s\<lparr>maxReg := max (maxReg s) i,
                chans := (chans s)(nchans s := parked s i),
                nchans := Suc (nchans s),
                outbox := (outbox s)(i \<mapsto> nchans s),
                pending := (pending s)(i := None)\<rparr>) \<or>
     (\<exists>i. a = CallUnregister i \<and> s' = s\<lparr>outbox := (outbox s)(i := None)\<rparr>) \<or>
     (\<exists>c. a = Consume c \<and> s' = s\<lparr>chans := (chans s)(c := tl (chans s c))\<rparr>)"
  using assms
  by (cases a)
    (auto simp: Start_def Close_def Register_eq Unregister_def receive_def
      split: if_splits list.splits option.splits prod.splits simp del: fun_upd_apply)

section \<open>The watermark\<close>

lemma step_maxReg:
  assumes "step unm a s = Some (evs, s')"
  shows "maxReg s \<le> maxReg s'"
  using step_effect [OF assms]
  by (auto dest!: dispatch_effect)

lemma run_maxReg:
  assumes "run unm acts s = Some (evs, s')"
  shows "maxReg s \<le> maxReg s'"
proof -
  have "maxReg s \<le> maxReg s'"
  proof (rule run_invariant [where P = "\<lambda>t. maxReg s \<le> maxReg t", OF _ _ assms])
    fix a t evs t'
    assume "maxReg s \<le> maxReg t" and "step unm a t = Some (evs, t')"
    then show "maxReg s \<le> maxReg t'"
      using step_maxReg by (blast intro: order_trans)
  qed simp
  then show ?thesis .
qed

text \<open>
  Claim C6. \<open>maxReg\<close> never goes down: not along any schedule of steps, not in a call of
  \<^verbatim>\<open>Register\<close> or \<^verbatim>\<open>Unregister\<close>, not in a pass of the dispatcher (which leaves it as it
  is); and \<^verbatim>\<open>Register(id)\<close> with \<open>id \<le> maxReg\<close> leaves it unchanged.
\<close>

theorem maxReg_monotone:
  "(run unm acts s = Some (evs, s') \<longrightarrow> maxReg s \<le> maxReg s') \<and>
   (Register s i = Some (t, c) \<longrightarrow>
      maxReg s \<le> maxReg t \<and> (i \<le> maxReg s \<longrightarrow> maxReg t = maxReg s)) \<and>
   maxReg (Unregister s i) = maxReg s \<and>
   (dispatch unm s msg = (evs', Some u) \<longrightarrow> maxReg u = maxReg s)"
proof (intro conjI impI)
  assume "run unm acts s = Some (evs, s')"
  then show "maxReg s \<le> maxReg s'" by (rule run_maxReg)
next
  assume "Register s i = Some (t, c)"
  then show "maxReg s \<le> maxReg t"
    by (auto simp: Register_eq split: if_splits)
next
  assume "Register s i = Some (t, c)" and "i \<le> maxReg s"
  then show "maxReg t = maxReg s"
    by (auto simp: Register_eq max_def split: if_splits)
next
  show "maxReg (Unregister s i) = maxReg s"
    by (simp add: Unregister_def)
next
  assume "dispatch unm s msg = (evs', Some u)"
  then show "maxReg u = maxReg s"
    by (auto dest!: dispatch_effect)
qed

theorem maxReg_monotone_witness:
  "run demo_Unmarshal [CallStart, CallRegister 5, CallRegister 3, CallUnregister 5] demo_Broker \<noteq> None \<and>
   maxReg demo_Broker
     \<le> maxReg (snd (the (run demo_Unmarshal
           [CallStart, CallRegister 5, CallRegister 3, CallUnregister 5] demo_Broker))) \<and>
   Register (demo_Broker\<lparr>maxReg := 5\<rparr>) 3 \<noteq> None \<and>
   (3 :: 32 word) \<le> maxReg (demo_Broker\<lparr>maxReg := 5\<rparr>) \<and>
   maxReg (fst (the (Register (demo_Broker\<lparr>maxReg := 5\<rparr>) 3))) = 5 \<and>
   dispatch demo_Unmarshal (demo_Broker\<lparr>maxReg := 5\<rparr>) (Some (GossipMessage [6])) =
     (fst (dispatch demo_Unmarshal (demo_Broker\<lparr>maxReg := 5\<rparr>) (Some (GossipMessage [6]))),
      Some (the (snd (dispatch demo_Unmarshal (demo_Broker\<lparr>maxReg := 5\<rparr>) (Some (GossipMessage [6])))))) \<and>
   maxReg (the (snd (dispatch demo_Unmarshal (demo_Broker\<lparr>maxReg := 5\<rparr>)
      (Some (GossipMessage [6]))))) = 5"
proof -
  let ?acts = "[CallStart, CallRegister 5, CallRegister 3, CallUnregister 5] :: 32 word action list"
  let ?r = "run demo_Unmarshal ?acts demo_Broker"
  let ?s = "demo_Broker\<lparr>maxReg := 5\<rparr>"
  let ?d = "dispatch demo_Unmarshal ?s (Some (GossipMessage [6]))"
  have r: "?r = Some (fst (the ?r), snd (the ?r))"
    by (simp add: demo_defs)
  have g: "Register ?s 3 = Some (fst (the (Register ?s 3)), snd (the (Register ?s 3)))"
    by (simp add: demo_defs)
  have le: "(3 :: 32 word) \<le> maxReg ?s"
    by simp
  have d: "?d = (fst ?d, Some (the (snd ?d)))"
    by (simp add: demo_defs)
  note m = maxReg_monotone [of demo_Unmarshal ?acts demo_Broker "fst (the ?r)" "snd (the ?r)"
      3 "fst (the (Register ?s 3))" "snd (the (Register ?s 3))"]
  note m' = maxReg_monotone [of demo_Unmarshal "[]" ?s "[]" ?s 3
      "fst (the (Register ?s 3))" "snd (the (Register ?s 3))"
      "Some (GossipMessage [6])" "fst ?d" "the (snd ?d)"]
  from m r have 1: "maxReg demo_Broker \<le> maxReg (snd (the ?r))" by blast
  from m' g le have 2: "maxReg (fst (the (Register ?s 3))) = maxReg ?s" by blast
  from m' d have 3: "maxReg (the (snd ?d)) = maxReg ?s" by blast
  from r have rn: "?r \<noteq> None" by (metis option.distinct(1))
  from g have gn: "Register ?s 3 \<noteq> None" by (metis option.distinct(1))
  from 2 have 2: "maxReg (fst (the (Register ?s 3))) = 5" by simp
  from 3 have 3: "maxReg (the (snd ?d)) = 5" by simp
  from rn 1 gn le 2 d 3 show ?thesis by blast
qed

section \<open>Unregister\<close>

text \<open>
  Claim C9. \<^verbatim>\<open>Unregister(id)\<close> removes the outbox entry of \<open>id\<close> and changes nothing else:
  the pending map, \<open>maxReg\<close>, the channels and the outbox entries of other ids stay, and for
  an id without an outbox entry the whole state stays.
\<close>

theorem Unregister_frame:
  "Unregister s i = s\<lparr>outbox := (outbox s)(i := None)\<rparr> \<and>
   pending (Unregister s i) = pending s \<and>
   maxReg (Unregister s i) = maxReg s \<and>
   chans (Unregister s i) = chans s \<and>
   (\<forall>j. j \<noteq> i \<longrightarrow> outbox (Unregister s i) j = outbox s j) \<and>
   (outbox s i = None \<longrightarrow> Unregister s i = s)"
  by (simp add: Unregister_def fun_upd_idem del: fun_upd_apply) simp

theorem Unregister_frame_witness:
  "(3 :: 32 word) \<noteq> 5 \<and>
   outbox (Unregister (demo_Broker\<lparr>outbox := [3 \<mapsto> 0, 5 \<mapsto> 1]\<rparr>) 5) 3 = Some 0 \<and>
   outbox demo_Broker 5 = None \<and> Unregister demo_Broker 5 = demo_Broker"
proof -
  let ?s = "demo_Broker\<lparr>outbox := [3 \<mapsto> 0, 5 \<mapsto> 1]\<rparr>"
  have ne: "(3 :: 32 word) \<noteq> 5" by simp
  have no: "outbox demo_Broker (5 :: 32 word) = None"
    by (simp add: demo_defs)
  from Unregister_frame [of ?s 5] ne
  have "outbox (Unregister ?s 5) 3 = outbox ?s 3" by blast
  moreover from Unregister_frame [of demo_Broker 5] no
  have "Unregister demo_Broker 5 = demo_Broker" by blast
  ultimately show ?thesis using no ne by simp
qed

section \<open>The pending map\<close>

lemma step_disjoint:
  assumes "\<forall>i c. outbox s i = Some c \<longrightarrow> pending s i = None"
    and "step unm a s = Some (evs, s')"
  shows "\<forall>i c. outbox s' i = Some c \<longrightarrow> pending s' i = None"
  using step_effect [OF assms(2)] assms(1)
  by (auto dest!: dispatch_effect split: if_splits)

text \<open>
  Over schedules of steps, where no call runs inside a pass, an id with an outbox entry has
  no pending entry: \<open>route\<close> changes the pending map only when the id has no outbox entry,
  and \<^verbatim>\<open>Register(id)\<close> installs the outbox entry, moves the parked messages into the new
  channel and removes the pending entry in one step. The code does not keep this
  invariant when \<^verbatim>\<open>Register\<close> runs inside a pass (see the last section).
\<close>

lemma pending_outbox_disjoint:
  "(run unm acts (NewBroker v) = Some (evs, s) \<longrightarrow>
      (\<forall>i c. outbox s i = Some c \<longrightarrow> pending s i = None)) \<and>
   (route t k f h = Some t' \<longrightarrow> pending t' \<noteq> pending t \<longrightarrow> outbox t k = None) \<and>
   (Register t i = Some (u, c') \<longrightarrow>
      outbox u i = Some c' \<and> pending u i = None \<and> chans u c' = parked t i)"
proof (intro conjI impI)
  assume r: "run unm acts (NewBroker v) = Some (evs, s)"
  show "\<forall>i c. outbox s i = Some c \<longrightarrow> pending s i = None"
  proof (rule run_invariant
      [where P = "\<lambda>t. \<forall>i c. outbox t i = Some c \<longrightarrow> pending t i = None", OF _ _ r])
    show "\<forall>i c. outbox (NewBroker v) i = Some c \<longrightarrow> pending (NewBroker v) i = None"
      by (simp add: NewBroker_def)
  qed (rule step_disjoint)
next
  assume "route t k f h = Some t'" and "pending t' \<noteq> pending t"
  then show "outbox t k = None"
    by (auto simp: route_def park_def send_def split: option.splits if_splits)
next
  assume "Register t i = Some (u, c')"
  then show "outbox u i = Some c'"
    by (auto simp: Register_eq split: if_splits)
next
  assume "Register t i = Some (u, c')"
  then show "pending u i = None"
    by (auto simp: Register_eq split: if_splits)
next
  assume "Register t i = Some (u, c')"
  then show "chans u c' = parked t i"
    by (auto simp: Register_eq split: if_splits)
qed

text \<open>
  Claim C4, as stated, fails: a message for id 1 is parked while \<open>maxReg = 0\<close>, then
  \<^verbatim>\<open>Register(5)\<close> raises the watermark without touching \<^verbatim>\<open>pending[1]\<close>, then a message
  for id 6 is parked. Two keys of the pending map hold a message.
\<close>

theorem pending_two_keys:
  "run demo_Unmarshal
     [CallStart, Arrive (Some (GossipMessage [1])), SelectInbox, CallRegister 5,
      Arrive (Some (GossipMessage [6])), SelectInbox] demo_Broker \<noteq> None \<and>
   pending (snd (the (run demo_Unmarshal
     [CallStart, Arrive (Some (GossipMessage [1])), SelectInbox, CallRegister 5,
      Arrive (Some (GossipMessage [6])), SelectInbox] demo_Broker))) 1 = Some [demo_msg 1] \<and>
   pending (snd (the (run demo_Unmarshal
     [CallStart, Arrive (Some (GossipMessage [1])), SelectInbox, CallRegister 5,
      Arrive (Some (GossipMessage [6])), SelectInbox] demo_Broker))) 6 = Some [demo_msg 6]"
  by (simp add: demo_defs)

lemma watermark_mono:
  fixes k m m' :: "'a::len word"
  assumes "k \<le> m \<or> k = m + 1" and "m \<le> m'"
  shows "k \<le> m' \<or> k = m' + 1"
proof (cases "m = m'")
  case True
  with assms(1) show ?thesis by simp
next
  case False
  with assms(2) have "m < m'" by simp
  then have "m + 1 \<le> m'" by (rule inc_le)
  with assms show ?thesis by auto
qed

lemma step_pending_keys:
  assumes "step unm a s = Some (evs, s')" and "pending s' k = Some ms"
  shows "pending s k \<noteq> None \<or> k = maxReg s + 1"
  using step_effect [OF assms(1)] assms(2)
  by (auto dest!: dispatch_effect split: if_splits)

lemma step_watermark:
  assumes "\<forall>k ms. pending s k = Some ms \<longrightarrow> k \<le> maxReg s \<or> k = maxReg s + 1"
    and "step unm a s = Some (evs, s')"
  shows "\<forall>k ms. pending s' k = Some ms \<longrightarrow> k \<le> maxReg s' \<or> k = maxReg s' + 1"
proof (intro allI impI)
  fix k ms
  assume "pending s' k = Some ms"
  with assms(2) have "pending s k \<noteq> None \<or> k = maxReg s + 1"
    by (rule step_pending_keys)
  with assms(1) have "k \<le> maxReg s \<or> k = maxReg s + 1"
    by auto
  moreover from assms(2) have "maxReg s \<le> maxReg s'"
    by (rule step_maxReg)
  ultimately show "k \<le> maxReg s' \<or> k = maxReg s' + 1"
    by (rule watermark_mono)
qed

text \<open>
  Claim C4, amended. In every state reached from a new broker, every key of the pending
  map is at most \<open>maxReg\<close> or equal to \<open>maxReg + 1\<close>; so at most one key above the watermark
  is populated. Keys at or below the watermark stay populated when \<^verbatim>\<open>Register\<close> skipped
  them.
\<close>

theorem pending_above_watermark:
  assumes "run unm acts (NewBroker v) = Some (evs, s)"
  shows "(\<forall>k ms. pending s k = Some ms \<longrightarrow> k \<le> maxReg s \<or> k = maxReg s + 1) \<and>
    (\<forall>k k' ms ms'. pending s k = Some ms \<and> pending s k' = Some ms' \<and>
        maxReg s < k \<and> maxReg s < k' \<longrightarrow> k = k')"
proof -
  have inv: "\<forall>k ms. pending s k = Some ms \<longrightarrow> k \<le> maxReg s \<or> k = maxReg s + 1"
  proof (rule run_invariant
      [where P = "\<lambda>t. \<forall>k ms. pending t k = Some ms \<longrightarrow> k \<le> maxReg t \<or> k = maxReg t + 1",
       OF _ _ assms])
    show "\<forall>k ms. pending (NewBroker v) k = Some ms \<longrightarrow>
        k \<le> maxReg (NewBroker v) \<or> k = maxReg (NewBroker v) + 1"
      by (simp add: NewBroker_def)
  qed (rule step_watermark)
  then have "\<forall>k k' ms ms'. pending s k = Some ms \<and> pending s k' = Some ms' \<and>
        maxReg s < k \<and> maxReg s < k' \<longrightarrow> k = k'"
    by (metis not_less)
  with inv show ?thesis by blast
qed

theorem pending_above_watermark_witness:
  "run demo_Unmarshal
     [CallStart, Arrive (Some (GossipMessage [1])), SelectInbox, CallRegister 5,
      Arrive (Some (GossipMessage [6])), SelectInbox] demo_Broker \<noteq> None \<and>
   pending (snd (the (run demo_Unmarshal
     [CallStart, Arrive (Some (GossipMessage [1])), SelectInbox, CallRegister 5,
      Arrive (Some (GossipMessage [6])), SelectInbox] demo_Broker))) 6 = Some [demo_msg 6] \<and>
   maxReg (snd (the (run demo_Unmarshal
     [CallStart, Arrive (Some (GossipMessage [1])), SelectInbox, CallRegister 5,
      Arrive (Some (GossipMessage [6])), SelectInbox] demo_Broker))) = 5 \<and>
   ((6 :: 32 word) \<le> 5 \<or> (6 :: 32 word) = 5 + 1)"
proof -
  let ?acts = "[CallStart, Arrive (Some (GossipMessage [1])), SelectInbox, CallRegister 5,
      Arrive (Some (GossipMessage [6])), SelectInbox] :: 32 word action list"
  let ?r = "run demo_Unmarshal ?acts demo_Broker"
  have r: "?r = Some (fst (the ?r), snd (the ?r))"
    by (simp add: demo_defs)
  have p6: "pending (snd (the ?r)) 6 = Some [demo_msg 6]"
    by (simp add: demo_defs)
  have mr: "maxReg (snd (the ?r)) = 5"
    by (simp add: demo_defs)
  from pending_above_watermark [OF r [unfolded demo_Broker_def], folded demo_Broker_def] p6
  have "(6 :: 32 word) \<le> maxReg (snd (the ?r)) \<or> 6 = maxReg (snd (the ?r)) + 1"
    by blast
  with mr have "(6 :: 32 word) \<le> 5 \<or> (6 :: 32 word) = 5 + 1" by simp
  moreover from r have "?r \<noteq> None" by (metis option.distinct(1))
  ultimately show ?thesis using p6 mr by blast
qed

section \<open>Late registration\<close>

text \<open>Schedules compose; arrivals fill the inbox; envelopes for the id one above the
  watermark, with no outbox entry, are parked in their order of arrival.\<close>

lemma run_append:
  "run unm (as @ bs) s =
     (case run unm as s of
        None \<Rightarrow> None
      | Some (e1, s1) \<Rightarrow>
          (case run unm bs s1 of None \<Rightarrow> None | Some (e2, s2) \<Rightarrow> Some (e1 @ e2, s2)))"
  by (induction as arbitrary: s) (auto split: option.splits)

lemma run_Arrive:
  "isStarted s \<Longrightarrow> run unm (map Arrive ms) s = Some ([], s\<lparr>inbox := inbox s @ ms\<rparr>)"
  by (induction ms arbitrary: s) simp_all

lemma decoded_Cons:
  "unm (Bytes m) = Some h \<Longrightarrow> decoded unm (m # ms) = h # decoded unm ms"
  by (simp add: decoded_def)

lemma accepts_inbox:
  "accepts unm (s\<lparr>inbox := x\<rparr>) k m = accepts unm s k m"
  by (simp add: accepts_def split: option.splits)

lemma accepts_pending:
  "accepts unm (s\<lparr>pending := x\<rparr>) k m = accepts unm s k m"
  by (simp add: accepts_def split: option.splits)

lemma dispatch_park:
  assumes "accepts unm s k m" and "k = maxReg s + 1" and "outbox s k = None"
  shows "\<exists>h. unm (Bytes m) = Some h \<and>
     dispatch unm s (Some m) =
       ([Validate h, ReportValidation m True],
        Some (s\<lparr>pending := (pending s)(k \<mapsto> parked s k @ [h])\<rparr>))"
  using assms
  by (auto simp: accepts_def dispatch_def route_def park_def parked_def Let_def
      split: option.splits simp del: fun_upd_apply)

lemma run_park:
  assumes "running s" and "inbox s = map Some ms @ rest" and "k = maxReg s + 1"
    and "outbox s k = None" and "\<forall>m\<in>set ms. accepts unm s k m"
  shows "\<exists>evs. run unm (replicate (length ms) SelectInbox) s =
     Some (evs, s\<lparr>inbox := rest,
                   pending := (if ms = [] then pending s
                               else (pending s)(k \<mapsto> parked s k @ decoded unm ms))\<rparr>)"
  using assms
proof (induction ms arbitrary: s)
  case Nil
  then show ?case by simp
next
  case (Cons m ms)
  let ?s0 = "s\<lparr>inbox := map Some ms @ rest\<rparr>"
  from Cons.prems have "accepts unm ?s0 k m" and "k = maxReg ?s0 + 1" and "outbox ?s0 k = None"
    by (simp_all add: accepts_inbox)
  from dispatch_park [OF this] obtain h where
    h: "unm (Bytes m) = Some h" and
    d: "dispatch unm ?s0 (Some m) =
       ([Validate h, ReportValidation m True],
        Some (?s0\<lparr>pending := (pending ?s0)(k \<mapsto> parked ?s0 k @ [h])\<rparr>))"
    by blast
  let ?s1 = "?s0\<lparr>pending := (pending ?s0)(k \<mapsto> parked ?s0 k @ [h])\<rparr>"
  from Cons.prems d have st: "step unm SelectInbox s = Some ([Validate h, ReportValidation m True], ?s1)"
    by simp
  have "\<exists>evs. run unm (replicate (length ms) SelectInbox) ?s1 =
     Some (evs, ?s1\<lparr>inbox := rest,
                   pending := (if ms = [] then pending ?s1
                               else (pending ?s1)(k \<mapsto> parked ?s1 k @ decoded unm ms))\<rparr>)"
    using Cons.prems by (intro Cons.IH) (simp_all add: accepts_inbox accepts_pending)
  then obtain evs where
    rn: "run unm (replicate (length ms) SelectInbox) ?s1 =
     Some (evs, ?s1\<lparr>inbox := rest,
                   pending := (if ms = [] then pending ?s1
                               else (pending ?s1)(k \<mapsto> parked ?s1 k @ decoded unm ms))\<rparr>)"
    by blast
  have p1: "parked ?s1 k = parked s k @ [h]"
    by (simp add: parked_def)
  have eq: "?s1\<lparr>inbox := rest,
                   pending := (if ms = [] then pending ?s1
                               else (pending ?s1)(k \<mapsto> parked ?s1 k @ decoded unm ms))\<rparr>
     = s\<lparr>inbox := rest, pending := (pending s)(k \<mapsto> parked s k @ decoded unm (m # ms))\<rparr>"
    using h by (simp add: decoded_def parked_def fun_upd_same del: fun_upd_apply)
  from st rn eq show ?case
    by (simp del: fun_upd_apply step.simps)
qed

text \<open>The addresses in the outbox are below \<open>nchans\<close>, so the channel \<^verbatim>\<open>Register\<close> makes is
  not one an outbox entry already refers to.\<close>

lemma step_addresses:
  assumes "\<forall>i c. outbox s i = Some c \<longrightarrow> c < nchans s"
    and "step unm a s = Some (evs, s')"
  shows "\<forall>i c. outbox s' i = Some c \<longrightarrow> c < nchans s'"
  using step_effect [OF assms(2)] assms(1)
  by (elim disjE exE conjE) (auto dest!: dispatch_effect split: if_splits, blast intro: less_SucI)

lemma run_addresses:
  assumes "run unm acts (NewBroker v) = Some (evs, s)"
  shows "\<forall>i c. outbox s i = Some c \<longrightarrow> c < nchans s"
proof (rule run_invariant
    [where P = "\<lambda>t. \<forall>i c. outbox t i = Some c \<longrightarrow> c < nchans t", OF _ _ assms])
  show "\<forall>i c. outbox (NewBroker v) i = Some c \<longrightarrow> c < nchans (NewBroker v)"
    by (simp add: NewBroker_def)
qed (rule step_addresses)

lemma late_registration:
  assumes "running s" and "inbox s = map Some ms" and "k = maxReg s + 1"
    and "outbox s k = None" and "pending s k = None"
    and "\<forall>m\<in>set ms. accepts unm s k m" and "length ms \<le> InboxCapacity"
  shows "\<exists>evs s'. run unm (replicate (length ms) SelectInbox @ [CallRegister k]) s = Some (evs, s') \<and>
     outbox s' k = Some (nchans s) \<and> chans s' (nchans s) = decoded unm ms \<and>
     pending s' k = None"
proof -
  let ?s1 = "s\<lparr>inbox := [],
                pending := (if ms = [] then pending s
                            else (pending s)(k \<mapsto> parked s k @ decoded unm ms))\<rparr>"
  from run_park [of s ms "[]" k unm] assms obtain evs where
    rn: "run unm (replicate (length ms) SelectInbox) s = Some (evs, ?s1)"
    by auto
  have len: "length (decoded unm ms) = length ms"
    using assms(6)
    by (induction ms) (auto simp: decoded_def accepts_def split: option.splits)
  have pk: "parked ?s1 k = decoded unm ms"
    using assms(5) by (simp add: parked_def decoded_def)
  with len assms(7) have "length (parked ?s1 k) \<le> InboxCapacity"
    by simp
  then obtain s' where
    g: "Register ?s1 k = Some (s', nchans s)" and
    "outbox s' k = Some (nchans s)" "chans s' (nchans s) = parked ?s1 k" "pending s' k = None"
    by (simp add: Register_eq)
  with pk rn show ?thesis
    by (simp add: run_append)
qed

lemma demo_flood:
  "\<exists>evs s. run demo_Unmarshal
       (CallStart # replicate n (Arrive (Some (GossipMessage [1]))) @ replicate n SelectInbox)
       demo_Broker = Some (evs, s) \<and>
     length (parked s 1) = n"
proof -
  let ?m = "GossipMessage [1]"
  let ?s0 = "demo_Broker\<lparr>isStarted := True, inbox := [], running := True\<rparr>"
  let ?s1 = "?s0\<lparr>inbox := replicate n (Some ?m)\<rparr>"
  let ?ms = "replicate n ?m"
  have st: "step demo_Unmarshal CallStart demo_Broker = Some ([], ?s0)"
    by (simp add: Start_def demo_Broker_def NewBroker_def)
  have "run demo_Unmarshal (map Arrive (replicate n (Some ?m))) ?s0 =
      Some ([], ?s0\<lparr>inbox := inbox ?s0 @ replicate n (Some ?m)\<rparr>)"
    by (rule run_Arrive) simp
  then have ar: "run demo_Unmarshal (replicate n (Arrive (Some ?m))) ?s0 = Some ([], ?s1)"
    by simp
  have acc: "\<forall>m\<in>set ?ms. accepts demo_Unmarshal ?s1 1 m"
    by (simp add: accepts_def demo_Unmarshal_def demo_Broker_def NewBroker_def)
  have "\<exists>evs. run demo_Unmarshal (replicate (length ?ms) SelectInbox) ?s1 =
     Some (evs, ?s1\<lparr>inbox := [],
                   pending := (if ?ms = [] then pending ?s1
                               else (pending ?s1)(1 \<mapsto> parked ?s1 1 @ decoded demo_Unmarshal ?ms))\<rparr>)"
    using acc by (intro run_park) (simp_all add: demo_Broker_def NewBroker_def)
  then obtain evs where
    pk: "run demo_Unmarshal (replicate n SelectInbox) ?s1 =
     Some (evs, ?s1\<lparr>inbox := [],
                   pending := (if ?ms = [] then pending ?s1
                               else (pending ?s1)(1 \<mapsto> parked ?s1 1 @ decoded demo_Unmarshal ?ms))\<rparr>)"
    by auto
  have dl: "length (decoded demo_Unmarshal ?ms) = n"
    by (induction n) (simp_all add: decoded_def demo_Unmarshal_def)
  have "length (parked (?s1\<lparr>inbox := [],
                   pending := (if ?ms = [] then pending ?s1
                               else (pending ?s1)(1 \<mapsto> parked ?s1 1 @ decoded demo_Unmarshal ?ms))\<rparr>) 1) = n"
    using dl by (simp add: parked_def demo_Broker_def NewBroker_def)
  with st ar pk show ?thesis
    by (simp add: run_append del: step.simps)
qed

lemma demo_waiting_eq:
  "run demo_Unmarshal
       [CallStart, CallRegister 5, Arrive (Some (GossipMessage [6])),
        Arrive (Some (GossipMessage [6])), Arrive (Some (GossipMessage [6]))] demo_Broker
   = Some ([], demo_waiting)"
  by (simp add: demo_waiting_def demo_defs)

text \<open>No channel of a reachable state holds more than 100 messages.\<close>

lemma step_capacity:
  assumes "\<forall>c. length (chans s c) \<le> InboxCapacity"
    and "step unm a s = Some (evs, s')"
  shows "\<forall>c. length (chans s' c) \<le> InboxCapacity"
proof
  fix c
  from assms(1) have "length (chans s c) \<le> InboxCapacity" ..
  moreover from assms(1) have "length (tl (chans s c)) \<le> InboxCapacity"
    by (metis diff_le_self length_tl order_trans)
  ultimately show "length (chans s' c) \<le> InboxCapacity"
    using step_effect [OF assms(2)]
    by (elim disjE exE conjE) (auto dest!: dispatch_effect split: if_splits)
qed

lemma queues_bounded:
  assumes "run unm acts (NewBroker v) = Some (evs, s)"
  shows "length (chans s c) \<le> 100"
proof -
  have "\<forall>c. length (chans s c) \<le> InboxCapacity"
  proof (rule run_invariant
      [where P = "\<lambda>t. \<forall>c. length (chans t c) \<le> InboxCapacity", OF _ _ assms])
    show "\<forall>c. length (chans (NewBroker v) c) \<le> InboxCapacity"
      by (simp add: NewBroker_def)
  qed (rule step_capacity)
  then show ?thesis by (simp add: InboxCapacity_def)
qed

text \<open>
  When at most 100 messages are parked for \<open>id\<close>, a call of \<^verbatim>\<open>Register(id)\<close> that gets the
  write lock returns a channel that no outbox entry of a reachable state refers to,
  installs it in \<^verbatim>\<open>outbox[id]\<close>, sets \<open>maxReg\<close> to the maximum of \<open>maxReg\<close> and \<open>id\<close>, leaves the
  parked messages in the channel in the order they were parked and deletes the pending
  entry. Hence, when \<open>N \<le> 100\<close> valid envelopes for \<open>k = maxReg + 1\<close> are processed while
  \<open>k\<close> has no outbox and no pending entry and \<^verbatim>\<open>Register(k)\<close> is called next, the returned
  channel holds exactly the \<open>N\<close> decoded messages in order of arrival. A later send appends
  at the tail and a receive takes the head; a send succeeds exactly while the channel
  holds fewer than 100 messages.
\<close>

lemma Register_contract:
  "(length (parked s i) \<le> InboxCapacity \<longrightarrow>
      Register s i =
        Some (s\<lparr>maxReg := max (maxReg s) i,
                 chans := (chans s)(nchans s := parked s i),
                 nchans := Suc (nchans s),
                 outbox := (outbox s)(i \<mapsto> nchans s),
                 pending := (pending s)(i := None)\<rparr>, nchans s)) \<and>
   (run unm acts (NewBroker v) = Some (evs, s) \<longrightarrow> (\<forall>j. outbox s j \<noteq> Some (nchans s))) \<and>
   (running s \<and> inbox s = map Some ms \<and> k = maxReg s + 1 \<and> outbox s k = None \<and>
    pending s k = None \<and> (\<forall>m\<in>set ms. accepts unm s k m) \<and> length ms \<le> InboxCapacity \<longrightarrow>
      (\<exists>evs' s'.
         run unm (replicate (length ms) SelectInbox @ [CallRegister k]) s = Some (evs', s') \<and>
         outbox s' k = Some (nchans s) \<and> chans s' (nchans s) = decoded unm ms \<and>
         pending s' k = None)) \<and>
   (send t c h = Some t' \<longrightarrow> chans t' c = chans t c @ [h]) \<and>
   (receive t c = Some (h', t'') \<longrightarrow> chans t c = h' # chans t'' c) \<and>
   (send t c h \<noteq> None) = (length (chans t c) < 100)"
proof (intro conjI impI)
  assume "length (parked s i) \<le> InboxCapacity"
  then show "Register s i =
        Some (s\<lparr>maxReg := max (maxReg s) i,
                 chans := (chans s)(nchans s := parked s i),
                 nchans := Suc (nchans s),
                 outbox := (outbox s)(i \<mapsto> nchans s),
                 pending := (pending s)(i := None)\<rparr>, nchans s)"
    by (simp add: Register_eq)
next
  assume "run unm acts (NewBroker v) = Some (evs, s)"
  from run_addresses [OF this] show "\<forall>j. outbox s j \<noteq> Some (nchans s)"
    by (metis less_irrefl)
next
  assume "running s \<and> inbox s = map Some ms \<and> k = maxReg s + 1 \<and> outbox s k = None \<and>
    pending s k = None \<and> (\<forall>m\<in>set ms. accepts unm s k m) \<and> length ms \<le> InboxCapacity"
  then show "\<exists>evs' s'.
         run unm (replicate (length ms) SelectInbox @ [CallRegister k]) s = Some (evs', s') \<and>
         outbox s' k = Some (nchans s) \<and> chans s' (nchans s) = decoded unm ms \<and>
         pending s' k = None"
    using late_registration [of s ms k unm] by blast
next
  assume "send t c h = Some t'"
  then show "chans t' c = chans t c @ [h]"
    by (auto simp: send_def split: if_splits)
next
  assume "receive t c = Some (h', t'')"
  then show "chans t c = h' # chans t'' c"
    by (auto simp: receive_def split: list.splits)
next
  show "(send t c h \<noteq> None) = (length (chans t c) < 100)"
    by (simp add: send_def InboxCapacity_def)
qed

lemma Register_contract_example:
  "length (parked (demo_Broker\<lparr>pending := [6 \<mapsto> [demo_msg 6]]\<rparr>) 6) \<le> InboxCapacity \<and>
   snd (the (Register (demo_Broker\<lparr>pending := [6 \<mapsto> [demo_msg 6]]\<rparr>) 6)) = 0 \<and>
   chans (fst (the (Register (demo_Broker\<lparr>pending := [6 \<mapsto> [demo_msg 6]]\<rparr>) 6))) 0 = [demo_msg 6] \<and>
   run demo_Unmarshal
       [CallStart, CallRegister 5, Arrive (Some (GossipMessage [6])),
        Arrive (Some (GossipMessage [6])), Arrive (Some (GossipMessage [6]))] demo_Broker
     = Some ([], demo_waiting) \<and>
   outbox demo_waiting 5 \<noteq> Some (nchans demo_waiting) \<and>
   running demo_waiting \<and>
   inbox demo_waiting = map Some [GossipMessage [6], GossipMessage [6], GossipMessage [6]] \<and>
   6 = maxReg demo_waiting + 1 \<and>
   outbox demo_waiting 6 = None \<and>
   pending demo_waiting 6 = None \<and>
   accepts demo_Unmarshal demo_waiting 6 (GossipMessage [6]) \<and>
   chans (snd (the (run demo_Unmarshal [SelectInbox, SelectInbox, SelectInbox, CallRegister 6]
      demo_waiting))) 1 = [demo_msg 6, demo_msg 6, demo_msg 6] \<and>
   send demo_waiting 0 (demo_msg 5) \<noteq> None \<and>
   chans (the (send demo_waiting 0 (demo_msg 5))) 0 = [demo_msg 5] \<and>
   receive (the (send demo_waiting 0 (demo_msg 5))) 0 \<noteq> None \<and>
   fst (the (receive (the (send demo_waiting 0 (demo_msg 5))) 0)) = demo_msg 5"
proof -
  let ?p = "demo_Broker\<lparr>pending := [6 \<mapsto> [demo_msg 6]]\<rparr>"
  let ?ms = "[GossipMessage [6], GossipMessage [6], GossipMessage [6]]"
  let ?t = "the (send demo_waiting 0 (demo_msg 5))"
  let ?u = "the (receive ?t 0)"
  note c = Register_contract [where s = ?p and i = 6]
  note d = Register_contract [where s = demo_waiting and unm = demo_Unmarshal and v = "\<lambda>h. True"
      and ms = ?ms and k = 6 and t = demo_waiting and c = 0 and h = "demo_msg 5" and t' = ?t,
      folded demo_Broker_def]
  note e = Register_contract [where t = ?t and c = 0 and h' = "fst ?u" and t'' = "snd ?u"]
  have 1: "length (parked ?p 6) \<le> InboxCapacity"
    by (simp add: parked_def InboxCapacity_def)
  with c have g: "Register ?p 6 =
        Some (?p\<lparr>maxReg := max (maxReg ?p) 6,
                 chans := (chans ?p)(nchans ?p := parked ?p 6),
                 nchans := Suc (nchans ?p),
                 outbox := (outbox ?p)(6 \<mapsto> nchans ?p),
                 pending := (pending ?p)(6 := None)\<rparr>, nchans ?p)"
    by blast
  have 2: "snd (the (Register ?p 6)) = 0"
    by (simp add: g) (simp add: demo_Broker_def NewBroker_def)
  have 3: "chans (fst (the (Register ?p 6))) 0 = [demo_msg 6]"
    by (simp add: g) (simp add: demo_Broker_def NewBroker_def parked_def)
  note 4 = demo_waiting_eq
  from d 4 have 5: "outbox demo_waiting 5 \<noteq> Some (nchans demo_waiting)"
    by blast
  have w: "running demo_waiting"
    "inbox demo_waiting = map Some ?ms"
    "6 = maxReg demo_waiting + 1"
    "outbox demo_waiting 6 = None"
    "pending demo_waiting 6 = None"
    "accepts demo_Unmarshal demo_waiting 6 (GossipMessage [6])"
    by (simp_all add: demo_waiting_def demo_defs accepts_def)
  have n: "nchans demo_waiting = 1"
    by (simp add: demo_waiting_def demo_defs)
  have dc: "decoded demo_Unmarshal ?ms = [demo_msg 6, demo_msg 6, demo_msg 6]"
    by (simp add: decoded_def demo_Unmarshal_def demo_msg_def)
  have "\<forall>m\<in>set ?ms. accepts demo_Unmarshal demo_waiting 6 m" and "length ?ms \<le> InboxCapacity"
    using w(6) by (simp_all add: InboxCapacity_def)
  with d w obtain evs' s' where
    "run demo_Unmarshal (replicate (length ?ms) SelectInbox @ [CallRegister 6]) demo_waiting
       = Some (evs', s')" and
    "chans s' (nchans demo_waiting) = decoded demo_Unmarshal ?ms"
    by blast
  then have 6: "chans (snd (the (run demo_Unmarshal
      [SelectInbox, SelectInbox, SelectInbox, CallRegister 6] demo_waiting))) 1 =
      [demo_msg 6, demo_msg 6, demo_msg 6]"
    by (simp add: n dc numeral_3_eq_3 del: run.simps)
  have sd: "send demo_waiting 0 (demo_msg 5) = Some ?t"
    by (simp add: demo_waiting_def demo_defs)
  with d have "chans ?t 0 = chans demo_waiting 0 @ [demo_msg 5]"
    by blast
  then have 7: "chans ?t 0 = [demo_msg 5]"
    by (simp add: demo_waiting_def demo_defs)
  have rc: "receive ?t 0 = Some (fst ?u, snd ?u)"
    by (simp add: receive_def 7)
  with e have "chans ?t 0 = fst ?u # chans (snd ?u) 0"
    by blast
  with 7 have 8: "fst ?u = demo_msg 5"
    by simp
  from sd have sn: "send demo_waiting 0 (demo_msg 5) \<noteq> None"
    by (metis option.distinct(1))
  from rc have rn: "receive ?t 0 \<noteq> None"
    by (metis option.distinct(1))
  from 1 2 3 4 5 w 6 sn 7 rn 8 show ?thesis
    by blast
qed

text \<open>
  Claim C2. With more than 100 parked messages the code does not do what the claim says:
  101 valid messages for instance 1 arrive at a started broker with \<open>maxReg = 0\<close> and are
  parked; \<^verbatim>\<open>Register(1)\<close> then does not return. Its sweep (lines 165-167) sends, with the
  write lock held, into a channel of capacity 100 that no consumer holds yet, and blocks
  on the 101st send.
\<close>

theorem Register_blocks_on_101:
  "run demo_Unmarshal
     (CallStart # replicate 101 (Arrive (Some (GossipMessage [1]))) @ replicate 101 SelectInbox)
     demo_Broker \<noteq> None \<and>
   Register (snd (the (run demo_Unmarshal
     (CallStart # replicate 101 (Arrive (Some (GossipMessage [1]))) @ replicate 101 SelectInbox)
     demo_Broker))) 1 = None"
proof -
  from demo_flood [of 101] obtain evs s where
    r: "run demo_Unmarshal
       (CallStart # replicate 101 (Arrive (Some (GossipMessage [1]))) @ replicate 101 SelectInbox)
       demo_Broker = Some (evs, s)" and
    l: "length (parked s 1) = 101"
    by blast
  from l have "Register s 1 = None"
    by (simp add: Register_eq InboxCapacity_def)
  with r show ?thesis by simp
qed

section \<open>Close\<close>

text \<open>Once the dispatcher has returned (\<open>isStarted\<close> and not \<open>running\<close>) no step is a pass of
  the dispatcher, no step makes an event, and a step other than a call of \<^verbatim>\<open>Register\<close>
  can only take messages out of a channel.\<close>

lemma step_stopped:
  assumes "isStarted s" and "\<not> running s" and "step unm a s = Some (evs, s')"
  shows "isStarted s' \<and> \<not> running s' \<and> evs = [] \<and> a \<noteq> SelectInbox \<and>
    ((\<forall>i. a \<noteq> CallRegister i) \<longrightarrow> (\<forall>c. \<exists>n. chans s' c = drop n (chans s c)))"
proof (cases a)
  case (Consume c)
  with assms have s': "s' = s\<lparr>chans := (chans s)(c := tl (chans s c))\<rparr>" and "evs = []"
    by (auto simp: receive_def split: list.splits)
  have "\<exists>n. chans s' c' = drop n (chans s c')" for c'
  proof (cases "c' = c")
    case True
    with s' have "chans s' c' = drop 1 (chans s c')" by (simp add: drop_Suc)
    then show ?thesis ..
  next
    case False
    with s' have "chans s' c' = drop 0 (chans s c')" by simp
    then show ?thesis ..
  qed
  with Consume assms s' \<open>evs = []\<close> show ?thesis by simp
next
  case (CallRegister i)
  with assms show ?thesis
    by (auto simp: Register_eq split: if_splits)
qed (use assms in \<open>auto simp: Start_def Close_def Unregister_def split: if_splits intro: exI [of _ 0]\<close>)

lemma run_stopped:
  assumes "isStarted s" and "\<not> running s" and "run unm acts s = Some (evs, s')"
  shows "evs = [] \<and> SelectInbox \<notin> set acts \<and> \<not> running s' \<and>
    ((\<forall>i. CallRegister i \<notin> set acts) \<longrightarrow> (\<forall>c. \<exists>n. chans s' c = drop n (chans s c)))"
  using assms
proof (induction acts arbitrary: s evs)
  case Nil
  then show ?case by (auto intro: exI [of _ 0])
next
  case (Cons a acts)
  from Cons.prems(3) obtain e1 s1 e2 where
    st: "step unm a s = Some (e1, s1)" and rn: "run unm acts s1 = Some (e2, s')"
    and ev: "evs = e1 @ e2"
    by (auto split: option.splits)
  from step_stopped [OF Cons.prems(1,2) st] have
    s1: "isStarted s1" "\<not> running s1" "e1 = []" "a \<noteq> SelectInbox" and
    q1: "(\<forall>i. a \<noteq> CallRegister i) \<longrightarrow> (\<forall>c. \<exists>n. chans s1 c = drop n (chans s c))"
    by blast+
  from Cons.IH [OF s1(1,2) rn] have
    ih: "e2 = []" "SelectInbox \<notin> set acts" "\<not> running s'" and
    q2: "(\<forall>i. CallRegister i \<notin> set acts) \<longrightarrow> (\<forall>c. \<exists>n. chans s' c = drop n (chans s1 c))"
    by blast+
  have "\<forall>c. \<exists>n. chans s' c = drop n (chans s c)" if "\<forall>i. CallRegister i \<notin> set (a # acts)"
  proof
    fix c
    from that q1 obtain n where "chans s1 c = drop n (chans s c)" by auto
    moreover from that q2 obtain n' where "chans s' c = drop n' (chans s1 c)" by auto
    ultimately have "chans s' c = drop (n' + n) (chans s c)" by simp
    then show "\<exists>n. chans s' c = drop n (chans s c)" ..
  qed
  with s1 ih ev show ?case by simp
qed

text \<open>
  Claim C8, as stated, fails twice. With the close channel closed and two envelopes in the
  inbox both cases of the \<^verbatim>\<open>select\<close> are ready, and Go takes either: the dispatcher can
  take the inbox case twice, deliver both messages, and return only then. And after the
  dispatcher has returned, \<^verbatim>\<open>Register(1)\<close> still moves the message parked for instance 1
  onto the new outbox queue.
\<close>

theorem passes_after_Close:
  "closed demo_closed \<and>
   map_option fst (run demo_Unmarshal [SelectInbox, SelectInbox, SelectClose] demo_closed) =
     Some [Validate (demo_msg 1), ReportValidation (GossipMessage [1]) True,
           Validate (demo_msg 2), ReportValidation (GossipMessage [2]) True] \<and>
   chans demo_closed 0 = [] \<and> chans demo_closed 1 = [] \<and>
   chans (snd (the (run demo_Unmarshal [SelectInbox, SelectInbox, SelectClose] demo_closed))) 0
     = [demo_msg 1] \<and>
   chans (snd (the (run demo_Unmarshal [SelectInbox, SelectInbox, SelectClose] demo_closed))) 1
     = [demo_msg 2] \<and>
   isStarted demo_returned \<and> \<not> running demo_returned \<and> closed demo_returned \<and>
   chans demo_returned 0 = [] \<and>
   map_option snd (Register demo_returned 1) = Some 0 \<and>
   chans (fst (the (Register demo_returned 1))) 0 = [demo_msg 1]"
  by (simp add: demo_closed_def demo_returned_def demo_defs)

text \<open>
  Claim C8, amended. Once \<^verbatim>\<open>Close\<close> has fired, the close case of the dispatcher's
  \<^verbatim>\<open>select\<close> is ready and taking it makes the dispatcher return; with an empty inbox the
  inbox case is not ready, so the close case is the only one. Once the dispatcher has
  returned, no schedule contains a further pass of it: no envelope is reported or
  validated, and as long as \<^verbatim>\<open>Register\<close> is not called no message is added to any queue
  (the content of every channel is a suffix of what it was).
\<close>

theorem dispatcher_exit:
  "(running s \<and> closed s \<longrightarrow> step unm SelectClose s = Some ([], s\<lparr>running := False\<rparr>)) \<and>
   (running s \<and> inbox s = [] \<longrightarrow> step unm SelectInbox s = None) \<and>
   (isStarted s \<and> \<not> running s \<and> run unm acts s = Some (evs, s') \<longrightarrow>
      evs = [] \<and> SelectInbox \<notin> set acts \<and> \<not> running s' \<and>
      ((\<forall>i. CallRegister i \<notin> set acts) \<longrightarrow> (\<forall>c. \<exists>n. chans s' c = drop n (chans s c))))"
  using run_stopped [of s unm acts evs s'] by simp

theorem dispatcher_exit_witness:
  "running demo_closed \<and> closed demo_closed \<and>
   step demo_Unmarshal SelectClose demo_closed = Some ([], demo_closed\<lparr>running := False\<rparr>) \<and>
   running (demo_closed\<lparr>inbox := []\<rparr>) \<and> inbox (demo_closed\<lparr>inbox := []\<rparr>) = [] \<and>
   step demo_Unmarshal SelectInbox (demo_closed\<lparr>inbox := []\<rparr>) = None \<and>
   isStarted demo_returned \<and> \<not> running demo_returned \<and>
   run demo_Unmarshal [Arrive (Some (GossipMessage [1])), CallUnregister 1] demo_returned \<noteq> None \<and>
   fst (the (run demo_Unmarshal [Arrive (Some (GossipMessage [1])), CallUnregister 1]
     demo_returned)) = [] \<and>
   step demo_Unmarshal SelectInbox (demo_returned\<lparr>inbox := [Some (GossipMessage [1])]\<rparr>) = None"
proof -
  let ?acts = "[Arrive (Some (GossipMessage [1])), CallUnregister 1] :: 32 word action list"
  let ?r = "run demo_Unmarshal ?acts demo_returned"
  note a = dispatcher_exit [where s = demo_closed and unm = demo_Unmarshal]
  note b = dispatcher_exit [where s = "demo_closed\<lparr>inbox := []\<rparr>" and unm = demo_Unmarshal]
  note c = dispatcher_exit [where s = demo_returned and unm = demo_Unmarshal and acts = ?acts
      and evs = "fst (the ?r)" and s' = "snd (the ?r)"]
  have 1: "running demo_closed" "closed demo_closed"
    by (simp_all add: demo_closed_def demo_defs)
  with a have 2: "step demo_Unmarshal SelectClose demo_closed =
      Some ([], demo_closed\<lparr>running := False\<rparr>)"
    by blast
  have 3: "running (demo_closed\<lparr>inbox := []\<rparr>)" "inbox (demo_closed\<lparr>inbox := []\<rparr>) = []"
    using 1 by simp_all
  with b have 4: "step demo_Unmarshal SelectInbox (demo_closed\<lparr>inbox := []\<rparr>) = None"
    by blast
  have 5: "isStarted demo_returned" "\<not> running demo_returned"
    by (simp_all add: demo_returned_def demo_defs)
  have r: "?r = Some (fst (the ?r), snd (the ?r))"
    using 5 by (simp add: Unregister_def)
  with c 5 have 6: "fst (the ?r) = []"
    by blast
  from r have rn: "?r \<noteq> None" by (metis option.distinct(1))
  have 7: "step demo_Unmarshal SelectInbox
      (demo_returned\<lparr>inbox := [Some (GossipMessage [1])]\<rparr>) = None"
    using 5 by simp
  from 1 2 3 4 5 rn 6 7 show ?thesis by blast
qed

section \<open>Between the lock sections of a pass\<close>

text \<open>Every schedule of steps is a schedule of moves: a pass is the moves of its sections
  with nothing between them.\<close>

lemma do_moves_append:
  "do_moves unm (as @ bs) y =
     (case do_moves unm as y of
        None \<Rightarrow> None
      | Some (e1, y1) \<Rightarrow>
          (case do_moves unm bs y1 of None \<Rightarrow> None | Some (e2, y2) \<Rightarrow> Some (e1 @ e2, y2)))"
  by (induction as arbitrary: y) (auto split: option.splits)

lemmas pass_defs =
  dispatch_def route_def decode_msg_def gate_def lookup_def idle_def Let_def

lemma pass_as_moves:
  assumes "running s" and "inbox s = msg # rest"
    and "dispatch unm (s\<lparr>inbox := rest\<rparr>) msg = (evs, Some s')"
  shows "do_moves unm [Takes] (idle s) = Some (evs, idle s') \<or>
    do_moves unm [Takes, Snapshots] (idle s) = Some (evs, idle s') \<or>
    do_moves unm [Takes, Snapshots, Looks] (idle s) = Some (evs, idle s') \<or>
    do_moves unm [Takes, Snapshots, Looks, Sends] (idle s) = Some (evs, idle s') \<or>
    do_moves unm [Takes, Snapshots, Looks, Parks] (idle s) = Some (evs, idle s')"
proof -
  note d = assms(1,2) assms(3) [symmetric]
  show ?thesis
  proof (cases msg)
  case None
  with d have "do_moves unm [Takes] (idle s) = Some (evs, idle s')"
    by (simp add: pass_defs)
  then show ?thesis by simp
next
  case (Some m)
  show ?thesis
  proof (cases "unm (Bytes m)")
    case None
    with Some d have "do_moves unm [Takes] (idle s) = Some (evs, idle s')"
      by (simp add: pass_defs)
    then show ?thesis by simp
  next
    case h: (Some h)
    show ?thesis
    proof (cases "Message h")
      case None
      with Some h d have "do_moves unm [Takes] (idle s) = Some (evs, idle s')"
        by (simp add: pass_defs)
      then show ?thesis by simp
    next
      case inner: (Some inner)
      show ?thesis
      proof (cases "maxReg s + 1 < InstanceId inner \<or> \<not> eValidator s h")
        case True
        with Some h inner d
        have "do_moves unm [Takes, Snapshots] (idle s) = Some (evs, idle s')"
          by (auto simp: pass_defs)
        then show ?thesis by simp
      next
        case False
        show ?thesis
        proof (cases "outbox s (InstanceId inner)")
          case (Some c)
          with \<open>msg = Some m\<close> h inner False assms
          have "do_moves unm [Takes, Snapshots, Looks, Sends] (idle s) = Some (evs, idle s')"
            by (simp add: pass_defs)
          then show ?thesis by simp
        next
          case None
          show ?thesis
          proof (cases "InstanceId inner = maxReg s + 1")
            case True
            with None \<open>msg = Some m\<close> h inner False d
            have "do_moves unm [Takes, Snapshots, Looks, Parks] (idle s) = Some (evs, idle s')"
              by (simp add: pass_defs)
            then show ?thesis by simp
          next
            case neq: False
            with None \<open>msg = Some m\<close> h inner False d
            have "do_moves unm [Takes, Snapshots, Looks] (idle s) = Some (evs, idle s')"
              by (simp add: pass_defs)
            then show ?thesis by simp
          qed
        qed
      qed
    qed
  qed
qed
qed

lemma step_as_moves:
  assumes "step unm a s = Some (evs, s')"
  shows "\<exists>mvs. do_moves unm mvs (idle s) = Some (evs, idle s')"
proof (cases a)
  case SelectInbox
  with assms obtain msg rest where "running s" and "inbox s = msg # rest"
    and "dispatch unm (s\<lparr>inbox := rest\<rparr>) msg = (evs, Some s')"
    by (auto split: if_splits list.splits option.splits prod.splits)
  from pass_as_moves [OF this] show ?thesis by blast
next
  case (Arrive m)
  with assms have "do_moves unm [Arrives m] (idle s) = Some (evs, idle s')"
    by (auto simp: idle_def split: if_splits)
  then show ?thesis ..
next
  case SelectClose
  with assms have "do_moves unm [Exits] (idle s) = Some (evs, idle s')"
    by (auto simp: idle_def split: if_splits)
  then show ?thesis ..
next
  case CallStart
  with assms have "do_moves unm [Starts] (idle s) = Some (evs, idle s')"
    by (auto simp: idle_def)
  then show ?thesis ..
next
  case CallClose
  with assms have "do_moves unm [Closes] (idle s) = Some (evs, idle s')"
    by (auto simp: idle_def split: option.splits)
  then show ?thesis ..
next
  case (CallRegister i)
  with assms have "do_moves unm [Registers i] (idle s) = Some (evs, idle s')"
    by (auto simp: idle_def split: option.splits)
  then show ?thesis ..
next
  case (CallUnregister i)
  with assms have "do_moves unm [Unregisters i] (idle s) = Some (evs, idle s')"
    by (auto simp: idle_def)
  then show ?thesis ..
next
  case (Consume c)
  with assms have "do_moves unm [Consumes c] (idle s) = Some (evs, idle s')"
    by (auto simp: idle_def split: option.splits)
  then show ?thesis ..
qed

lemma run_as_moves:
  assumes "run unm acts s = Some (evs, s')"
  shows "\<exists>mvs. do_moves unm mvs (idle s) = Some (evs, idle s')"
  using assms
proof (induction acts arbitrary: s evs)
  case Nil
  then have "do_moves unm [] (idle s) = Some (evs, idle s')" by simp
  then show ?case ..
next
  case (Cons a acts)
  from Cons.prems obtain e1 s1 e2 where
    st: "step unm a s = Some (e1, s1)" and rn: "run unm acts s1 = Some (e2, s')"
    and ev: "evs = e1 @ e2"
    by (auto split: option.splits)
  from step_as_moves [OF st] obtain m1 where
    1: "do_moves unm m1 (idle s) = Some (e1, idle s1)" ..
  from Cons.IH [OF rn] obtain m2 where
    2: "do_moves unm m2 (idle s1) = Some (e2, idle s')" ..
  from 1 2 ev have "do_moves unm (m1 @ m2) (idle s) = Some (evs, idle s')"
    by (simp add: do_moves_append)
  then show ?case ..
qed

text \<open>
  Claim C5. The lookup of line 132 and the park of lines 138-143 hold the lock
  separately. A valid message for instance 1 arrives at a started broker with
  \<open>maxReg = 0\<close>; the lookup finds no outbox entry, so the dispatcher stands before line 138
  with the message. \<^verbatim>\<open>Register(1)\<close> runs now: it finds nothing parked and installs the queue.
  Then the dispatcher parks. The message is in \<^verbatim>\<open>pending[1]\<close> beside \<^verbatim>\<open>outbox[1]\<close>, it is not
  in the queue, and the envelope was reported with verdict true.
\<close>

theorem park_beside_outbox:
  "at (snd (the (do_moves demo_Unmarshal
      [Starts, Arrives (Some (GossipMessage [1])), Takes, Snapshots, Looks]
      (idle demo_Broker)))) = AtPark 1 (demo_msg 1) \<and>
   outbox (broker (snd (the (do_moves demo_Unmarshal
      [Starts, Arrives (Some (GossipMessage [1])), Takes, Snapshots, Looks]
      (idle demo_Broker))))) 1 = None \<and>
   map_option fst (do_moves demo_Unmarshal
      [Starts, Arrives (Some (GossipMessage [1])), Takes, Snapshots, Looks, Registers 1, Parks]
      (idle demo_Broker)) =
     Some [Validate (demo_msg 1), ReportValidation (GossipMessage [1]) True] \<and>
   outbox (broker (snd (the (do_moves demo_Unmarshal
      [Starts, Arrives (Some (GossipMessage [1])), Takes, Snapshots, Looks, Registers 1, Parks]
      (idle demo_Broker))))) 1 = Some 0 \<and>
   pending (broker (snd (the (do_moves demo_Unmarshal
      [Starts, Arrives (Some (GossipMessage [1])), Takes, Snapshots, Looks, Registers 1, Parks]
      (idle demo_Broker))))) 1 = Some [demo_msg 1] \<and>
   chans (broker (snd (the (do_moves demo_Unmarshal
      [Starts, Arrives (Some (GossipMessage [1])), Takes, Snapshots, Looks, Registers 1, Parks]
      (idle demo_Broker))))) 0 = [] \<and>
   wlocked (snd (the (do_moves demo_Unmarshal
      [Starts, Arrives (Some (GossipMessage [1])), Takes, Snapshots, Looks, Registers 1, Parks]
      (idle demo_Broker)))) = False"
  by (simp add: demo_defs idle_def decode_msg_def gate_def lookup_def)

text \<open>The same for any broker: a park that follows a \<^verbatim>\<open>Register\<close> of its id.\<close>

lemma park_after_Register:
  assumes "outbox s k = None" and "pending s k = None"
    and "Register s k = Some (s1, c)"
  shows "outbox (park s1 k h) k = Some c \<and> pending (park s1 k h) k = Some [h] \<and>
    chans (park s1 k h) c = []"
  using assms by (auto simp: Register_eq park_def parked_def split: if_splits)

text \<open>While a blocked \<^verbatim>\<open>Register\<close> holds the write lock no lock section is entered: no
  \<^verbatim>\<open>Register\<close> or \<^verbatim>\<open>Unregister\<close> goes on, and a dispatcher that stands with a decoded
  envelope before the read lock of line 105 stays there and reports nothing. Such a state
  is reached from the new broker.\<close>

lemma sweep_stop_frame:
  "maxReg (sweep_stop s i ms) = maxReg s \<and> pending (sweep_stop s i ms) = pending s \<and>
   outbox (sweep_stop s i ms) = outbox s \<and> nchans (sweep_stop s i ms) = nchans s"
  by (induction ms arbitrary: s) (auto simp: send_def split: option.splits)

lemma Register_blocked_frame:
  "maxReg (Register_blocked s i) = max (maxReg s) i \<and>
   pending (Register_blocked s i) = pending s \<and>
   outbox (Register_blocked s i) = (outbox s)(i \<mapsto> nchans s)"
  by (auto simp: Register_blocked_def Let_def sweep_stop_frame max_def split: option.splits)

lemma move_locked:
  assumes "wlocked y" and "do_move unm a y = Some (evs, y')"
  shows "wlocked y' \<and> a \<noteq> Snapshots \<and> a \<noteq> Looks \<and> a \<noteq> Parks \<and>
    (\<forall>i. a \<noteq> Registers i \<and> a \<noteq> Unregisters i) \<and>
    (at y \<noteq> AtSelect \<longrightarrow> at y' = at y \<or> (\<exists>c h. at y = AtSend c h))  \<and>
    ((\<forall>c h. at y \<noteq> AtSend c h) \<and> at y \<noteq> AtSelect \<longrightarrow> evs = [])"
  using assms
  by (cases a) (auto split: if_splits option.splits list.splits place.splits prod.splits)

lemma moves_locked:
  assumes "wlocked y" and "do_moves unm mvs y = Some (evs, y')"
  shows "wlocked y' \<and> Snapshots \<notin> set mvs \<and> Looks \<notin> set mvs \<and> Parks \<notin> set mvs \<and>
    (\<forall>i. Registers i \<notin> set mvs \<and> Unregisters i \<notin> set mvs)"
  using assms
proof (induction mvs arbitrary: y evs)
  case Nil
  then show ?case by simp
next
  case (Cons a mvs)
  from Cons.prems(2) obtain e1 y1 e2 where
    st: "do_move unm a y = Some (e1, y1)" and rn: "do_moves unm mvs y1 = Some (e2, y')"
    by (auto split: option.splits)
  from move_locked [OF Cons.prems(1) st] Cons.IH [OF _ rn] show ?case
    by auto
qed

lemma no_report_behind_blocked_Register:
  assumes "wlocked y" and "at y = AtSnapshot m h inner"
    and "do_moves unm mvs y = Some (evs, y')"
  shows "evs = [] \<and> at y' = AtSnapshot m h inner \<and> wlocked y'"
  using assms
proof (induction mvs arbitrary: y evs)
  case Nil
  then show ?case by simp
next
  case (Cons a mvs)
  from Cons.prems(3) obtain e1 y1 e2 where
    st: "do_move unm a y = Some (e1, y1)" and rn: "do_moves unm mvs y1 = Some (e2, y')"
    and ev: "evs = e1 @ e2"
    by (auto split: option.splits)
  from move_locked [OF Cons.prems(1) st] Cons.prems(2)
  have "wlocked y1" and "at y1 = AtSnapshot m h inner" and "e1 = []"
    by auto
  from Cons.IH [OF this(1,2) rn] \<open>e1 = []\<close> ev show ?case
    by simp
qed

lemma deadlock_reachable:
  "\<exists>mvs evs y. do_moves demo_Unmarshal mvs (idle demo_Broker) = Some (evs, y) \<and> wlocked y"
proof -
  from demo_flood [of 101] obtain evs s where
    r: "run demo_Unmarshal
       (CallStart # replicate 101 (Arrive (Some (GossipMessage [1]))) @ replicate 101 SelectInbox)
       demo_Broker = Some (evs, s)" and
    l: "length (parked s 1) = 101"
    by blast
  from run_as_moves [OF r] obtain mvs where
    m: "do_moves demo_Unmarshal mvs (idle demo_Broker) = Some (evs, idle s)" ..
  from l have "Register s 1 = None"
    by (simp add: Register_eq InboxCapacity_def)
  then have "do_moves demo_Unmarshal [Registers 1] (idle s) =
      Some ([], (idle s)\<lparr>broker := Register_blocked s 1, wlocked := True\<rparr>)"
    by (simp add: idle_def)
  with m have "do_moves demo_Unmarshal (mvs @ [Registers 1]) (idle demo_Broker) =
      Some (evs, (idle s)\<lparr>broker := Register_blocked s 1, wlocked := True\<rparr>)"
    by (simp add: do_moves_append)
  moreover have "wlocked ((idle s)\<lparr>broker := Register_blocked s 1, wlocked := True\<rparr>)"
    by simp
  ultimately show ?thesis by blast
qed

text \<open>With the write lock free and at most 100 messages parked, \<^verbatim>\<open>Register\<close> returns.\<close>

lemma Registers_when_free:
  assumes "\<not> wlocked y" and "length (parked (broker y) i) \<le> InboxCapacity"
  shows "\<exists>s'. Register (broker y) i = Some (s', nchans (broker y)) \<and>
    do_move unm (Registers i) y = Some ([], y\<lparr>broker := s'\<rparr>)"
  using assms by (simp add: Register_eq)

text \<open>With other goroutines between the sections of a pass \<open>maxReg\<close> still never goes
  down, and every key of the pending map is still at most \<open>maxReg\<close> or equal to
  \<open>maxReg + 1\<close>.\<close>

lemma move_maxReg:
  assumes "do_move unm a y = Some (evs, y')"
  shows "maxReg (broker y) \<le> maxReg (broker y')"
  using assms
  by (cases a)
    (auto simp: Register_eq Register_blocked_frame park_def send_def receive_def Start_def
      Close_def Unregister_def
      split: if_splits option.splits list.splits place.splits prod.splits)

lemma moves_maxReg:
  assumes "do_moves unm mvs y = Some (evs, y')"
  shows "maxReg (broker y) \<le> maxReg (broker y')"
  using assms
proof (induction mvs arbitrary: y evs)
  case Nil
  then show ?case by simp
next
  case (Cons a mvs)
  from Cons.prems obtain e1 y1 e2 where
    st: "do_move unm a y = Some (e1, y1)" and rn: "do_moves unm mvs y1 = Some (e2, y')"
    by (auto split: option.splits)
  from move_maxReg [OF st] Cons.IH [OF rn] show ?case
    by (rule order_trans)
qed

lemma near_mono:
  assumes "near s k" and "maxReg s \<le> maxReg s'"
  shows "near s' k"
  using assms watermark_mono [of k "maxReg s" "maxReg s'"] by (simp add: near_def)

lemma move_keys:
  assumes "do_move unm a y = Some (evs, y')"
  shows "(\<forall>k ms. pending (broker y') k = Some ms \<longrightarrow>
            pending (broker y) k \<noteq> None \<or> (\<exists>h. at y = AtPark k h)) \<and>
         (\<forall>k h. at y' = AtPark k h \<longrightarrow>
            at y = AtPark k h \<or> (\<exists>h'. at y = AtLookup h' k True)) \<and>
         (\<forall>h k. at y' = AtLookup h k True \<longrightarrow>
            at y = AtLookup h k True \<or> k = maxReg (broker y) + 1)"
  using assms
  by (cases a)
    (auto simp: Register_eq Register_blocked_frame park_def send_def receive_def Start_def
      Close_def Unregister_def decode_msg_def gate_def lookup_def Let_def
      split: if_splits option.splits list.splits place.splits prod.splits)

lemma move_watermark:
  assumes "watermark_ok y" and "do_move unm a y = Some (evs, y')"
  shows "watermark_ok y'"
proof -
  note k = move_keys [OF assms(2)]
  from assms(2) have m: "maxReg (broker y) \<le> maxReg (broker y')"
    by (rule move_maxReg)
  have up: "near (broker y') k" if "near (broker y) k" for k
    using that m by (rule near_mono)
  have top: "near (broker y) (maxReg (broker y) + 1)"
    by (simp add: near_def)
  from assms(1) have
    p: "\<And>k ms. pending (broker y) k = Some ms \<Longrightarrow> near (broker y) k" and
    q: "\<And>k h. at y = AtPark k h \<Longrightarrow> near (broker y) k" and
    l: "\<And>h k. at y = AtLookup h k True \<Longrightarrow> near (broker y) k"
    by (auto simp: watermark_ok_def)
  have "near (broker y') k" if "pending (broker y') k = Some ms" for k ms
  proof -
    from k that have "pending (broker y) k \<noteq> None \<or> (\<exists>h. at y = AtPark k h)" by blast
    with p q have "near (broker y) k" by auto
    then show ?thesis by (rule up)
  qed
  moreover have "near (broker y') k" if "at y' = AtPark k h" for k h
  proof -
    from k that have "at y = AtPark k h \<or> (\<exists>h'. at y = AtLookup h' k True)" by blast
    with q l have "near (broker y) k" by auto
    then show ?thesis by (rule up)
  qed
  moreover have "near (broker y') k" if "at y' = AtLookup h k True" for h k
  proof -
    from k that have "at y = AtLookup h k True \<or> k = maxReg (broker y) + 1" by blast
    with l top have "near (broker y) k" by auto
    then show ?thesis by (rule up)
  qed
  ultimately show ?thesis
    by (simp add: watermark_ok_def)
qed

lemma moves_watermark:
  assumes "do_moves unm mvs (idle (NewBroker v)) = Some (evs, y)"
  shows "\<forall>k ms. pending (broker y) k = Some ms \<longrightarrow>
    k \<le> maxReg (broker y) \<or> k = maxReg (broker y) + 1"
proof -
  have "watermark_ok y'" if "watermark_ok y0" and "do_moves unm mvs y0 = Some (evs, y')"
    for y0 y' :: "('a word, 'b) System" and evs
    using that
  proof (induction mvs arbitrary: y0 evs)
    case Nil
    then show ?case by simp
  next
    case (Cons a mvs)
    from Cons.prems(2) obtain e1 y1 e2 where
      st: "do_move unm a y0 = Some (e1, y1)" and rn: "do_moves unm mvs y1 = Some (e2, y')"
      by (auto split: option.splits)
    from move_watermark [OF Cons.prems(1) st] have "watermark_ok y1" .
    from Cons.IH [OF this rn] show ?case .
  qed
  moreover have "watermark_ok (idle (NewBroker v))"
    by (simp add: watermark_ok_def idle_def NewBroker_def)
  ultimately have "watermark_ok y"
    using assms by blast
  then show ?thesis
    by (simp add: watermark_ok_def near_def)
qed

end
